theory Spec2Isabelle
  imports Main "HOL-Library.Word"
begin

unbundle bit_operations_syntax

section \<open>Configuration constants of cudaTensorCoreGemm.cu\<close>

text \<open>
  The macros of the source, with the values the preprocessor gives them
  (\<^verbatim>\<open>SHARED_MEMORY_LIMIT_64K\<close> is 1, so \<^verbatim>\<open>CHUNK_K\<close> is 4).
\<close>

definition WARP_SIZE :: nat where "WARP_SIZE = 32"
definition TILING_SIZE :: nat where "TILING_SIZE = 16"
definition M_TILES :: nat where "M_TILES = 256"
definition N_TILES :: nat where "N_TILES = 256"
definition K_TILES :: nat where "K_TILES = 256"
definition M_GLOBAL :: nat where "M_GLOBAL = 16 * M_TILES"
definition N_GLOBAL :: nat where "N_GLOBAL = 16 * N_TILES"
definition K_GLOBAL :: nat where "K_GLOBAL = 16 * K_TILES"
definition WARPS_PER_BLOCK :: nat where "WARPS_PER_BLOCK = 8"
definition BLOCK_ROW_WARPS :: nat where "BLOCK_ROW_WARPS = 2"
definition BLOCK_COL_WARPS :: nat where "BLOCK_COL_WARPS = 4"
definition WARP_ROW_TILES :: nat where "WARP_ROW_TILES = 4"
definition WARP_COL_TILES :: nat where "WARP_COL_TILES = 2"
definition BLOCK_ROW_TILES :: nat where "BLOCK_ROW_TILES = WARP_ROW_TILES * BLOCK_ROW_WARPS"
definition BLOCK_COL_TILES :: nat where "BLOCK_COL_TILES = WARP_COL_TILES * BLOCK_COL_WARPS"
definition GLOBAL_MEM_STRIDE :: nat where "GLOBAL_MEM_STRIDE = N_GLOBAL"
definition SHMEM_STRIDE :: nat where "SHMEM_STRIDE = 16 * BLOCK_ROW_TILES"

lemmas config_defs =
  WARP_SIZE_def TILING_SIZE_def M_TILES_def N_TILES_def K_TILES_def M_GLOBAL_def N_GLOBAL_def
  K_GLOBAL_def WARPS_PER_BLOCK_def BLOCK_ROW_WARPS_def BLOCK_COL_WARPS_def WARP_ROW_TILES_def
  WARP_COL_TILES_def BLOCK_ROW_TILES_def BLOCK_COL_TILES_def GLOBAL_MEM_STRIDE_def
  SHMEM_STRIDE_def

section \<open>The grid-stride tile scheduler of compute\_gemm and semi\_sparse\<close>

text \<open>
  Both kernels open with the same loop (cudaTensorCoreGemm.cu lines 267-274, code.cu lines
  36-43):
  \<^verbatim>\<open>
  for(unsigned int block_pos = blockIdx.x;; block_pos += gridDim.x) {
      const unsigned int block_tile_i =
          ((block_pos * BLOCK_ROW_TILES) / N_TILES) * (BLOCK_COL_TILES);
      const unsigned int block_tile_j = (block_pos * BLOCK_COL_TILES) % N_TILES;
      if (block_tile_i >= M_TILES) { break; }
      ...
  }
  \<close>
  All three variables are \<^verbatim>\<open>unsigned int\<close>: 32-bit words whose arithmetic wraps.
\<close>

definition block_tile_i :: "32 word \<Rightarrow> 32 word" where
  "block_tile_i block_pos =
     ((block_pos * of_nat BLOCK_ROW_TILES) div of_nat N_TILES) * of_nat BLOCK_COL_TILES"

definition block_tile_j :: "32 word \<Rightarrow> 32 word" where
  "block_tile_j block_pos = (block_pos * of_nat BLOCK_COL_TILES) mod of_nat N_TILES"

text \<open>
  The tiles one block works on, in the order of its loop, started at \<open>block_pos\<close>.
  The loop has no bound of its own, so the model is a partial function: \<open>None\<close> is a
  block that never leaves the loop.
\<close>

partial_function (option) block_tiles ::
  "32 word \<Rightarrow> 32 word \<Rightarrow> (32 word \<times> 32 word) list option" where
  "block_tiles gridDim block_pos =
     (if block_tile_i block_pos \<ge> of_nat M_TILES then Some []
      else Option.bind (block_tiles gridDim (block_pos + gridDim))
             (\<lambda>rest. Some ((block_tile_i block_pos, block_tile_j block_pos) # rest)))"

text \<open>
  A launch with \<open>gridDim\<close> blocks: block \<open>b\<close> starts at \<open>blockIdx.x = b\<close>. The result
  lists, block by block, the tiles each block works on; it is \<open>None\<close> when some block
  does not terminate.
\<close>

definition grid_tiles :: "32 word \<Rightarrow> (32 word \<times> 32 word) list list option" where
  "grid_tiles gridDim =
     those (map (\<lambda>b. block_tiles gridDim (of_nat b)) [0..<unat gridDim])"

text \<open>The 128x128 output tiles of D, named by the 16x16-tile coordinates of their corner.\<close>

definition output_tiles :: "(32 word \<times> 32 word) list" where
  "output_tiles =
     concat (map (\<lambda>r. map (\<lambda>c. (of_nat (r * BLOCK_COL_TILES), of_nat (c * BLOCK_COL_TILES)))
                        [0..<N_TILES div BLOCK_COL_TILES])
                 [0..<M_TILES div BLOCK_COL_TILES])"

text \<open>
  Two auxiliary notions for the proofs. \<open>stride_positions g p\<close> is the loop over the
  natural numbers, without wrap-around: the positions \<open>p, p + g, p + 2 g, \<dots>\<close> below
  1024 (the number of 128x128 tiles, \<open>(M_TILES / 8) * (N_TILES / 8)\<close>).
  \<open>tile_of_pos\<close> is the tile of a position below \<open>2 ^ 29\<close>, where
  \<open>block_pos * 8\<close> does not wrap.
\<close>

function stride_positions :: "nat \<Rightarrow> nat \<Rightarrow> nat list" where
  "stride_positions g p = (if g = 0 \<or> 1024 \<le> p then [] else p # stride_positions g (p + g))"
  by pat_completeness auto
termination
  by (relation "measure (\<lambda>(g, p). 1024 - p)") auto

declare stride_positions.simps [simp del]

definition tile_of_pos :: "nat \<Rightarrow> 32 word \<times> 32 word" where
  "tile_of_pos n = (of_nat (8 * (n div 32)), of_nat (8 * (n mod 32)))"

section \<open>The host-side generator and encoder: init\_host\_matrices\<close>

text \<open>
  Buffers are functions from the element index to the element: the caller allocates them
  with \<^verbatim>\<open>malloc\<close>, so their initial contents are arbitrary. A \<^verbatim>\<open>half\<close> is its 16-bit
  pattern, a \<^verbatim>\<open>float\<close> its 32-bit pattern. The only conversions the function performs
  are \<^verbatim>\<open>(half)(rand() % 3)\<close>, \<^verbatim>\<open>(float)(rand() % 3)\<close> and the assignment of the literal
  0: the patterns of 0.0, 1.0 and 2.0 in binary16 and binary32.
\<close>

type_synonym half = "16 word"
type_synonym float = "32 word"

definition half_of_int :: "nat \<Rightarrow> half" where
  "half_of_int n = (if n = 0 then 0x0000 else if n = 1 then 0x3C00 else 0x4000)"

definition float_of_int :: "nat \<Rightarrow> float" where
  "float_of_int n = (if n = 0 then 0x00000000 else if n = 1 then 0x3F800000 else 0x40000000)"

record host =
  mat_a :: "nat \<Rightarrow> half"
  mat_b :: "nat \<Rightarrow> half"
  mat_c :: "nat \<Rightarrow> float"
  a_new :: "nat \<Rightarrow> half"
  b_new :: "nat \<Rightarrow> half"
  A_sparse_info :: "nat \<Rightarrow> 32 word"
  A_tsize_info :: "nat \<Rightarrow> nat"
  B_sparse_info :: "nat \<Rightarrow> 32 word"
  B_tsize_info :: "nat \<Rightarrow> nat"

text \<open>
  Lines 180-191. \<open>bern n\<close> is the outcome of the \<open>n\<close>-th call of
  \<^verbatim>\<open>distribution(generator)\<close> (one call per element, so the call for element
  \<open>i * K_GLOBAL + j\<close> is call number \<open>i * K_GLOBAL + j\<close>), and \<open>rnd n\<close> the result of the
  \<open>n\<close>-th call of \<^verbatim>\<open>rand()\<close>, which is called only when the outcome is true: as often
  as \<^verbatim>\<open>A_count\<close> says. The state is \<open>(a, A_zero_info, A_count)\<close>.
\<close>

definition generate_elem ::
  "(nat \<Rightarrow> bool) \<Rightarrow> (nat \<Rightarrow> nat) \<Rightarrow> nat \<Rightarrow> nat \<Rightarrow> nat \<Rightarrow>
   (nat \<Rightarrow> half) \<times> (nat \<Rightarrow> bool) \<times> nat \<Rightarrow> (nat \<Rightarrow> half) \<times> (nat \<Rightarrow> bool) \<times> nat" where
  "generate_elem bern rnd kg i j s =
     (case s of (a, A_zero_info, A_count) \<Rightarrow>
        if bern (i * kg + j)
        then (a(i * kg + j := half_of_int (rnd A_count mod 3)),
              A_zero_info(i * kg + j := True), A_count + 1)
        else (a(i * kg + j := 0), A_zero_info(i * kg + j := False), A_count))"

definition generate_a ::
  "(nat \<Rightarrow> bool) \<Rightarrow> (nat \<Rightarrow> nat) \<Rightarrow> nat \<Rightarrow> nat \<Rightarrow> (nat \<Rightarrow> half) \<Rightarrow>
   (nat \<Rightarrow> half) \<times> (nat \<Rightarrow> bool) \<times> nat" where
  "generate_a bern rnd mg kg a =
     fold (\<lambda>i. fold (\<lambda>j. generate_elem bern rnd kg i j) [0..<kg]) [0..<mg]
       (a, (\<lambda>_. False), 0)"

text \<open>
  Lines 195-213 and 215-233: the encoder loop nest, which the source has twice. The two
  copies differ in the mask vector they test (\<^verbatim>\<open>A_zero_info\<close>, \<^verbatim>\<open>B_zero_info\<close>) and in
  the buffers they write (\<^verbatim>\<open>a_new\<close>, \<^verbatim>\<open>A_sparse_info\<close>, \<^verbatim>\<open>A_tsize_info\<close> and their B
  counterparts), kept here in a record; both read the values from \<^verbatim>\<open>a\<close>. The counters
  are C \<^verbatim>\<open>int\<close>s that never exceed the number of elements \<open>2 ^ 24\<close>, so they are
  natural numbers here. \<^verbatim>\<open>sparse_info\<close> is an array of eight 32-bit words.
\<close>

record enc =
  new_buf :: "nat \<Rightarrow> half"
  new_count :: nat
  count_info :: nat
  sparse_out :: "nat \<Rightarrow> 32 word"
  tsize_out :: "nat \<Rightarrow> nat"

definition encode_elem ::
  "(nat \<Rightarrow> half) \<Rightarrow> (nat \<Rightarrow> bool) \<Rightarrow> nat \<Rightarrow> nat \<Rightarrow> nat \<Rightarrow> nat \<Rightarrow> nat \<Rightarrow>
   enc \<times> 32 word list \<Rightarrow> enc \<times> 32 word list" where
  "encode_elem src zero_info kg i j ii jj s =
     (case s of (e, sparse_info) \<Rightarrow>
        if zero_info ((i * TILING_SIZE + ii) * kg + (j * TILING_SIZE + jj))
        then (e\<lparr>new_buf := (new_buf e)
                     (new_count e := src ((i * TILING_SIZE + ii) * kg + (j * TILING_SIZE + jj))),
                 new_count := new_count e + 1,
                 count_info := count_info e + 1\<rparr>,
              sparse_info[ii div 2 :=
                 sparse_info ! (ii div 2) OR push_bit ((ii mod 2) * 16 + jj) 1])
        else (e, sparse_info))"

definition encode_block ::
  "(nat \<Rightarrow> half) \<Rightarrow> (nat \<Rightarrow> bool) \<Rightarrow> nat \<Rightarrow> nat \<Rightarrow> nat \<Rightarrow> enc \<Rightarrow> enc" where
  "encode_block src zero_info kg i j e =
     (case fold (\<lambda>ii. fold (\<lambda>jj. encode_elem src zero_info kg i j ii jj) [0..<TILING_SIZE])
             [0..<TILING_SIZE] (e, replicate 8 0) of
        (e', sparse_info) \<Rightarrow>
          (fold (\<lambda>k e. e\<lparr>sparse_out := (sparse_out e)
                          (((i * kg) div TILING_SIZE + j) * 8 + k := sparse_info ! k)\<rparr>)
             [0..<8] e')
          \<lparr>tsize_out := (tsize_out e') ((i * kg) div TILING_SIZE + j := count_info e')\<rparr>)"

definition encode_loops ::
  "(nat \<Rightarrow> half) \<Rightarrow> (nat \<Rightarrow> bool) \<Rightarrow> nat \<Rightarrow> nat \<Rightarrow> enc \<Rightarrow> enc" where
  "encode_loops src zero_info mg kg e =
     fold (\<lambda>i. fold (\<lambda>j. encode_block src zero_info kg i j) [0..<kg div TILING_SIZE])
       [0..<mg div TILING_SIZE] (e\<lparr>count_info := 0\<rparr>)"

text \<open>
  The two runs of the loop nest inside \<^verbatim>\<open>init_host_matrices\<close>, for dimensions
  \<open>mg\<close> x \<open>kg\<close>. \<^verbatim>\<open>B_zero_info\<close> is a \<^verbatim>\<open>std::vector<bool>\<close> that is created with all
  entries false and never assigned; the B run reads \<^verbatim>\<open>a\<close>, as line 222 does.
\<close>

definition A_encoding :: "(nat \<Rightarrow> bool) \<Rightarrow> (nat \<Rightarrow> nat) \<Rightarrow> nat \<Rightarrow> nat \<Rightarrow> host \<Rightarrow> enc" where
  "A_encoding bern rnd mg kg h =
     (case generate_a bern rnd mg kg (mat_a h) of (a, A_zero_info, A_count) \<Rightarrow>
        encode_loops a A_zero_info mg kg
          \<lparr>new_buf = a_new h, new_count = 0, count_info = 0,
           sparse_out = A_sparse_info h, tsize_out = A_tsize_info h\<rparr>)"

definition B_encoding :: "(nat \<Rightarrow> bool) \<Rightarrow> (nat \<Rightarrow> nat) \<Rightarrow> nat \<Rightarrow> nat \<Rightarrow> host \<Rightarrow> enc" where
  "B_encoding bern rnd mg kg h =
     (case generate_a bern rnd mg kg (mat_a h) of (a, A_zero_info, A_count) \<Rightarrow>
        encode_loops a (\<lambda>_. False) mg kg
          \<lparr>new_buf = b_new h, new_count = 0, count_info = 0,
           sparse_out = B_sparse_info h, tsize_out = B_tsize_info h\<rparr>)"

text \<open>Lines 237-239: C is filled with the next results of \<^verbatim>\<open>rand()\<close>.\<close>

definition fill_c :: "(nat \<Rightarrow> nat) \<Rightarrow> nat \<Rightarrow> nat \<Rightarrow> (nat \<Rightarrow> float) \<Rightarrow> (nat \<Rightarrow> float)" where
  "fill_c rnd calls n c = fold (\<lambda>t c. c(t := float_of_int (rnd (calls + t) mod 3))) [0..<n] c"

definition init_host_matrices_dims ::
  "nat \<Rightarrow> nat \<Rightarrow> nat \<Rightarrow> (nat \<Rightarrow> bool) \<Rightarrow> (nat \<Rightarrow> nat) \<Rightarrow> host \<Rightarrow> host" where
  "init_host_matrices_dims mg ng kg bern rnd h =
     (case generate_a bern rnd mg kg (mat_a h) of (a, A_zero_info, A_count) \<Rightarrow>
        let ea = A_encoding bern rnd mg kg h; eb = B_encoding bern rnd mg kg h
        in h\<lparr>mat_a := a,
              mat_c := fill_c rnd A_count (mg * ng) (mat_c h),
              a_new := new_buf ea, b_new := new_buf eb,
              A_sparse_info := sparse_out ea, A_tsize_info := tsize_out ea,
              B_sparse_info := sparse_out eb, B_tsize_info := tsize_out eb\<rparr>)"

definition init_host_matrices :: "(nat \<Rightarrow> bool) \<Rightarrow> (nat \<Rightarrow> nat) \<Rightarrow> host \<Rightarrow> host" where
  "init_host_matrices = init_host_matrices_dims M_GLOBAL N_GLOBAL K_GLOBAL"

text \<open>The number of set bits of a 32-bit word, and of the eight words of a block.\<close>

definition popcount :: "32 word \<Rightarrow> nat" where
  "popcount w = length (filter (bit w) [0..<32])"

definition block_popcount :: "(nat \<Rightarrow> 32 word) \<Rightarrow> nat \<Rightarrow> nat" where
  "block_popcount sparse blk = (\<Sum>k\<leftarrow>[0..<8]. popcount (sparse (blk * 8 + k)))"

text \<open>The start of a block's values in the compacted stream: \<open>count[block - 1]\<close>,
  with \<open>count[-1] = 0\<close>.\<close>

definition block_start :: "(nat \<Rightarrow> nat) \<Rightarrow> nat \<Rightarrow> nat" where
  "block_start tsize blk = (if blk = 0 then 0 else tsize (blk - 1))"

section \<open>The global-memory traffic of compute\_gemm\<close>

text \<open>
  The kernel parameters \<^verbatim>\<open>A\<close>, \<^verbatim>\<open>B\<close>, \<^verbatim>\<open>C\<close>, \<^verbatim>\<open>D\<close> point to buffers in global memory. The
  kernel reads \<^verbatim>\<open>C\<close> in lines 276-287, reads \<^verbatim>\<open>A\<close> and \<^verbatim>\<open>B\<close> in lines 329-355 and
  stores to \<^verbatim>\<open>D\<close> in lines 410-417; everything in between works on shared memory and on
  registers.
\<close>

record gmem =
  mem_A :: "nat \<Rightarrow> half"
  mem_B :: "nat \<Rightarrow> half"
  mem_C :: "nat \<Rightarrow> float"
  mem_D :: "nat \<Rightarrow> float"

text \<open>
  Line 277: \<^verbatim>\<open>gmem_idx = (block_tile_i + warpId) * M * GLOBAL_MEM_STRIDE + block_tile_j * N\<close>,
  with \<open>M = N = 16\<close>, computed in \<^verbatim>\<open>unsigned int\<close> and then widened to \<^verbatim>\<open>size_t\<close>.
\<close>

definition gmem_idx :: "32 word \<Rightarrow> 32 word \<Rightarrow> nat \<Rightarrow> nat" where
  "gmem_idx ti tj warpId =
     unat ((ti + of_nat warpId) * 16 * of_nat GLOBAL_MEM_STRIDE + tj * 16)"

text \<open>
  Lines 282-287 and 414-417: in iteration \<open>i\<close> lane \<open>laneId\<close> of warp \<open>warpId\<close> copies one
  \<^verbatim>\<open>int4\<close>, four floats, between \<^verbatim>\<open>(int4*)(gmem + GLOBAL_MEM_STRIDE * i) + laneId\<close> and
  \<^verbatim>\<open>(int4*)(shmem_warp_stream_ptr + SHMEM_STRIDE * i) + laneId\<close>, where
  \<^verbatim>\<open>shmem_warp_stream_ptr\<close> is \<open>warpId * SHMEM_STRIDE * K\<close> floats into shared memory. The
  float \<open>c\<close> of that \<^verbatim>\<open>int4\<close> has these indices:
\<close>

definition gmem_slot :: "32 word \<Rightarrow> 32 word \<Rightarrow> nat \<times> nat \<times> nat \<times> nat \<Rightarrow> nat" where
  "gmem_slot ti tj s =
     (case s of (warpId, laneId, i, c) \<Rightarrow>
        gmem_idx ti tj warpId + GLOBAL_MEM_STRIDE * i + 4 * laneId + c)"

definition shmem_slot :: "nat \<times> nat \<times> nat \<times> nat \<Rightarrow> nat" where
  "shmem_slot s =
     (case s of (warpId, laneId, i, c) \<Rightarrow>
        warpId * SHMEM_STRIDE * 16 + SHMEM_STRIDE * i + 4 * laneId + c)"

text \<open>
  All copies of one streaming loop, over the threads of the block (warp and lane), the
  iterations and the four floats. The threads run in parallel between two barriers; they
  touch different floats, so the order of the list does not matter.
\<close>

definition stream_slots :: "(nat \<times> nat \<times> nat \<times> nat) list" where
  "stream_slots =
     List.product [0..<WARPS_PER_BLOCK]
       (List.product [0..<WARP_SIZE] (List.product [0..<16] [0..<4]))"

definition load_C_tile ::
  "(nat \<Rightarrow> float) \<Rightarrow> 32 word \<Rightarrow> 32 word \<Rightarrow> (nat \<Rightarrow> float) \<Rightarrow> (nat \<Rightarrow> float)" where
  "load_C_tile C ti tj shmem =
     fold (\<lambda>s sh. sh (shmem_slot s := C (gmem_slot ti tj s))) stream_slots shmem"

definition tile_D_addrs :: "32 word \<times> 32 word \<Rightarrow> nat list" where
  "tile_D_addrs t = map (gmem_slot (fst t) (snd t)) stream_slots"

definition tile_D_writes :: "32 word \<times> 32 word \<Rightarrow> (nat \<Rightarrow> float) \<Rightarrow> (nat \<times> float) list" where
  "tile_D_writes t shmem =
     map (\<lambda>s. (gmem_slot (fst t) (snd t) s, shmem (shmem_slot s))) stream_slots"

text \<open>
  Lines 300-408 load the accumulator fragments from shared memory, scale them by
  \<^verbatim>\<open>beta\<close> (which line 262 has divided by \<^verbatim>\<open>alpha\<close>), run the tensor-core
  multiply-accumulate over the K dimension on chunks of \<^verbatim>\<open>A\<close> and \<^verbatim>\<open>B\<close> staged in
  shared memory, scale by \<^verbatim>\<open>alpha\<close> and store the fragments back to shared memory. They
  are floating-point operations of the WMMA library and touch no global buffer but \<^verbatim>\<open>A\<close>
  and \<^verbatim>\<open>B\<close>, which they read. They are a parameter here: a function from \<^verbatim>\<open>A\<close>,
  \<^verbatim>\<open>B\<close>, \<^verbatim>\<open>alpha\<close>, \<^verbatim>\<open>beta\<close>, the tile and the shared memory to the new shared
  memory. What is modelled in full is the traffic with \<^verbatim>\<open>C\<close> and \<^verbatim>\<open>D\<close>.
\<close>

type_synonym tile_compute =
  "(nat \<Rightarrow> half) \<Rightarrow> (nat \<Rightarrow> half) \<Rightarrow> float \<Rightarrow> float \<Rightarrow> 32 word \<times> 32 word \<Rightarrow>
   (nat \<Rightarrow> float) \<Rightarrow> (nat \<Rightarrow> float)"

text \<open>The stores to \<^verbatim>\<open>D\<close> of one block, tile after tile; the shared memory is the block's.\<close>

fun block_writes ::
  "tile_compute \<Rightarrow> (nat \<Rightarrow> half) \<Rightarrow> (nat \<Rightarrow> half) \<Rightarrow> (nat \<Rightarrow> float) \<Rightarrow> float \<Rightarrow> float \<Rightarrow>
   (nat \<Rightarrow> float) \<Rightarrow> (32 word \<times> 32 word) list \<Rightarrow> (nat \<times> float) list" where
  "block_writes mma A B C alpha beta shmem [] = []"
| "block_writes mma A B C alpha beta shmem (t # ts) =
     (let shmem1 = load_C_tile C (fst t) (snd t) shmem;
          shmem2 = mma A B alpha beta t shmem1
      in tile_D_writes t shmem2 @ block_writes mma A B C alpha beta shmem2 ts)"

text \<open>
  The stores to \<^verbatim>\<open>D\<close> of a launch with \<open>gridDim\<close> blocks, block after block (blocks do not
  communicate), and the kernel as a function on global memory. \<open>shmem0 b\<close> is the shared
  memory block \<open>b\<close> starts with. The result is \<open>None\<close> when a block does not terminate.
\<close>

definition apply_writes :: "(nat \<times> float) list \<Rightarrow> (nat \<Rightarrow> float) \<Rightarrow> (nat \<Rightarrow> float)" where
  "apply_writes ws d = fold (\<lambda>w d. d (fst w := snd w)) ws d"

definition compute_gemm_writes ::
  "tile_compute \<Rightarrow> 32 word \<Rightarrow> (nat \<Rightarrow> nat \<Rightarrow> float) \<Rightarrow> (nat \<Rightarrow> half) \<Rightarrow> (nat \<Rightarrow> half) \<Rightarrow>
   (nat \<Rightarrow> float) \<Rightarrow> float \<Rightarrow> float \<Rightarrow> (nat \<times> float) list option" where
  "compute_gemm_writes mma gridDim shmem0 A B C alpha beta =
     map_option
       (\<lambda>tss. concat (map (\<lambda>b. block_writes mma A B C alpha beta (shmem0 b) (tss ! b))
                         [0..<length tss]))
       (grid_tiles gridDim)"

definition compute_gemm ::
  "tile_compute \<Rightarrow> 32 word \<Rightarrow> (nat \<Rightarrow> nat \<Rightarrow> float) \<Rightarrow> float \<Rightarrow> float \<Rightarrow> gmem \<Rightarrow> gmem option" where
  "compute_gemm mma gridDim shmem0 alpha beta mem =
     map_option (\<lambda>ws. mem\<lparr>mem_D := apply_writes ws (mem_D mem)\<rparr>)
       (compute_gemm_writes mma gridDim shmem0 (mem_A mem) (mem_B mem) (mem_C mem) alpha beta)"

text \<open>The addresses of the stores to \<^verbatim>\<open>D\<close>, in the same order.\<close>

definition compute_gemm_D_addrs :: "32 word \<Rightarrow> nat list option" where
  "compute_gemm_D_addrs gridDim =
     map_option (\<lambda>tss. concat (map tile_D_addrs (concat tss))) (grid_tiles gridDim)"

section \<open>Auxiliary notions for the encoder proofs\<close>

text \<open>
  \<open>blk_idx kg i j q\<close> is the index in the matrix of element \<open>q\<close> (row-major) of block
  \<open>(i, j)\<close>; \<open>selected\<close> lists the elements of a block below \<open>q\<close> whose mask entry is
  set. \<open>block_inv\<close> and \<open>matrix_inv\<close> are the loop invariants of the encoder's
  element loop and of its block loop, and \<open>host0\<close> is a concrete start state.
\<close>

definition blk_idx :: "nat \<Rightarrow> nat \<Rightarrow> nat \<Rightarrow> nat \<Rightarrow> nat" where
  "blk_idx kg i j q = (i * TILING_SIZE + q div 16) * kg + (j * TILING_SIZE + q mod 16)"

definition selected :: "(nat \<Rightarrow> bool) \<Rightarrow> nat \<Rightarrow> nat \<Rightarrow> nat \<Rightarrow> nat \<Rightarrow> nat list" where
  "selected zi kg i j q = filter (\<lambda>q'. zi (blk_idx kg i j q')) [0..<q]"

definition block_inv ::
  "(nat \<Rightarrow> half) \<Rightarrow> (nat \<Rightarrow> bool) \<Rightarrow> nat \<Rightarrow> nat \<Rightarrow> nat \<Rightarrow> enc \<Rightarrow> nat \<Rightarrow> enc \<times> 32 word list \<Rightarrow> bool" where
  "block_inv src zi kg i j e q s =
     (case s of (e', si) \<Rightarrow>
        length si = 8 \<and>
        new_count e' = new_count e + length (selected zi kg i j q) \<and>
        count_info e' = count_info e + length (selected zi kg i j q) \<and>
        sparse_out e' = sparse_out e \<and> tsize_out e' = tsize_out e \<and>
        (\<forall>n. new_buf e' n =
           (if new_count e \<le> n \<and> n < new_count e + length (selected zi kg i j q)
            then src (blk_idx kg i j (selected zi kg i j q ! (n - new_count e)))
            else new_buf e n)) \<and>
        (\<forall>k<8. \<forall>n. bit (si ! k) n \<longleftrightarrow> n < 32 \<and> 32 * k + n < q \<and> zi (blk_idx kg i j (32 * k + n))) \<and>
        sum_list (map popcount si) = length (selected zi kg i j q))"

definition matrix_inv ::
  "(nat \<Rightarrow> half) \<Rightarrow> (nat \<Rightarrow> bool) \<Rightarrow> nat \<Rightarrow> enc \<Rightarrow> nat \<Rightarrow> enc \<Rightarrow> bool" where
  "matrix_inv src zi kg e0 N e =
     (new_count e = count_info e \<and>
      count_info e = block_start (tsize_out e) N \<and>
      (\<forall>m<N. block_popcount (sparse_out e) m
                 = length (selected zi kg (m div (kg div 16)) (m mod (kg div 16)) 256) \<and>
              tsize_out e m = block_start (tsize_out e) m
                 + length (selected zi kg (m div (kg div 16)) (m mod (kg div 16)) 256) \<and>
              tsize_out e m \<le> count_info e) \<and>
      (\<forall>m<N. \<forall>k<8. \<forall>n. bit (sparse_out e (m * 8 + k)) n \<longleftrightarrow>
              n < 32 \<and> zi (blk_idx kg (m div (kg div 16)) (m mod (kg div 16)) (32 * k + n))) \<and>
      (\<forall>m<N. \<forall>r<length (selected zi kg (m div (kg div 16)) (m mod (kg div 16)) 256).
              new_buf e (block_start (tsize_out e) m + r) =
              src (blk_idx kg (m div (kg div 16)) (m mod (kg div 16))
                     (selected zi kg (m div (kg div 16)) (m mod (kg div 16)) 256 ! r))) \<and>
      (\<forall>n\<ge>count_info e. new_buf e n = new_buf e0 n) \<and>
      (\<forall>x\<ge>8 * N. sparse_out e x = sparse_out e0 x) \<and>
      (\<forall>m\<ge>N. tsize_out e m = tsize_out e0 m))"

definition host0 :: host where
  "host0 = \<lparr>mat_a = (\<lambda>_. 0), mat_b = (\<lambda>_. 0x3C00), mat_c = (\<lambda>_. 0),
            a_new = (\<lambda>_. 0), b_new = (\<lambda>_. 0),
            A_sparse_info = (\<lambda>_. 0), A_tsize_info = (\<lambda>_. 0),
            B_sparse_info = (\<lambda>_. 0), B_tsize_info = (\<lambda>_. 0)\<rparr>"

section \<open>Properties of the tile scheduler\<close>

subsection \<open>The loop in terms of natural numbers\<close>

lemma unat_block_pos_scaled:
  "unat (p * 8 :: 32 word) = 8 * (unat p mod 2 ^ 29)"
proof -
  have "unat (p * 8) = (unat p * 8) mod 2 ^ 32"
    by (simp add: unat_word_ariths)
  also have "\<dots> = (8 * unat p) mod (8 * 2 ^ 29)"
    by (simp add: mult.commute)
  also have "\<dots> = 8 * (unat p mod 2 ^ 29)"
    by (simp only: mult_mod_right)
  finally show ?thesis .
qed

lemma unat_block_tile_i:
  "unat (block_tile_i p) = 8 * ((unat p mod 2 ^ 29) div 32)"
proof -
  define r where "r = unat p mod 2 ^ 29"
  define q :: "32 word" where "q = (p * 8) div 256"
  have "unat q = (8 * r) div 256"
    unfolding q_def r_def by (simp only: unat_div unat_block_pos_scaled) simp
  then have q: "unat q = r div 32" by simp
  have "r < 2 ^ 29" by (simp add: r_def)
  then have "r div 32 * 8 < 2 ^ 32" by simp
  then have "unat (q * 8) = r div 32 * 8"
    by (simp add: unat_word_ariths q)
  moreover have "block_tile_i p = q * 8"
    by (simp add: block_tile_i_def config_defs q_def)
  ultimately show ?thesis by (simp add: r_def)
qed

lemma unat_block_tile_j:
  "unat (block_tile_j p) = 8 * (unat p mod 32)"
proof -
  have "unat (block_tile_j p) = 8 * (unat p mod 2 ^ 29) mod 256"
    by (simp add: block_tile_j_def config_defs unat_mod unat_block_pos_scaled)
  also have "\<dots> = 8 * ((unat p mod 2 ^ 29) mod 32)"
    using mult_mod_right [of 8 "unat p mod 2 ^ 29" 32] by simp
  also have "(unat p mod 2 ^ 29) mod 32 = unat p mod 32"
    by (simp add: mod_mod_cancel)
  finally show ?thesis .
qed

lemma loop_exit_iff:
  "block_tile_i p \<ge> of_nat M_TILES \<longleftrightarrow> 1024 \<le> unat p mod 2 ^ 29"
proof -
  define r where "r = unat p mod 2 ^ 29"
  have "block_tile_i p \<ge> (256 :: 32 word) \<longleftrightarrow> 256 \<le> unat (block_tile_i p)"
    by (simp add: word_le_nat_alt)
  also have "\<dots> \<longleftrightarrow> 256 \<le> 8 * (r div 32)"
    by (simp only: unat_block_tile_i r_def)
  also have "\<dots> \<longleftrightarrow> 1024 \<le> r"
    by (simp add: less_eq_div_iff_mult_less_eq)
  finally show ?thesis by (simp add: config_defs r_def)
qed

lemma block_tiles_exit:
  "1024 \<le> unat p mod 2 ^ 29 \<Longrightarrow> block_tiles g p = Some []"
  by (subst block_tiles.simps) (simp add: loop_exit_iff)

lemma block_tiles_step:
  "unat p mod 2 ^ 29 < 1024 \<Longrightarrow>
   block_tiles g p =
     Option.bind (block_tiles g (p + g))
       (\<lambda>rest. Some ((block_tile_i p, block_tile_j p) # rest))"
  by (subst block_tiles.simps) (simp add: loop_exit_iff)

text \<open>
  Two runs of the loop. With 80 blocks, the block that starts at position 1000 works on
  the tile in tile row 248 and tile column 64 and stops at position 1080. The block that
  starts at position \<open>2 ^ 29 + 5\<close> of a larger grid works on the tile of position 5,
  because \<open>block_pos * 8\<close> has wrapped.
\<close>

lemma block_tiles_example: "block_tiles 80 1000 = Some [(248, 64)]"
proof -
  have "block_tiles 80 (1000 + 80) = Some []" by (rule block_tiles_exit) simp
  moreover have "block_tile_i 1000 = 248" "block_tile_j 1000 = 64"
    by (simp_all add: block_tile_i_def block_tile_j_def config_defs)
  moreover have "unat (1000 :: 32 word) mod 2 ^ 29 < 1024" by simp
  ultimately show ?thesis by (simp add: block_tiles_step)
qed

lemma block_tile_wrap_example:
  "block_tile_i 0x20000005 = 0" "block_tile_j 0x20000005 = 40"
  by (simp_all add: block_tile_i_def block_tile_j_def config_defs)

lemma residue_step:
  "unat (p + g :: 32 word) mod 2 ^ 29 = (unat p mod 2 ^ 29 + unat g mod 2 ^ 29) mod 2 ^ 29"
proof -
  have "unat (p + g) mod 2 ^ 29 = ((unat p + unat g) mod 2 ^ 32) mod 2 ^ 29"
    by (simp add: unat_word_ariths)
  also have "\<dots> = (unat p + unat g) mod 2 ^ 29"
    by (rule mod_mod_cancel) simp
  also have "\<dots> = (unat p mod 2 ^ 29 + unat g mod 2 ^ 29) mod 2 ^ 29"
    by (simp add: mod_add_eq)
  finally show ?thesis .
qed

lemma block_tiles_terminates:
  assumes g: "unat g mod 2 ^ 29 \<noteq> 0"
  shows "\<exists>ts. block_tiles g p = Some ts"
proof -
  define G where "G = unat g mod 2 ^ 29"
  have G: "0 < G" "G < 2 ^ 29" using g by (simp_all add: G_def)
  have step: "unat (p + g) mod 2 ^ 29 = (unat p mod 2 ^ 29 + G) mod 2 ^ 29" for p
    unfolding G_def by (rule residue_step)
  show ?thesis
  proof (cases "G \<le> 2 ^ 29 - 1024")
    case True
    have "\<exists>ts. block_tiles g p = Some ts" if "n = 1024 - unat p mod 2 ^ 29" for n p
      using that
    proof (induction n arbitrary: p rule: less_induct)
      case (less n)
      show ?case
      proof (cases "1024 \<le> unat p mod 2 ^ 29")
        case True
        then show ?thesis by (simp add: block_tiles_exit)
      next
        case False
        then have r: "unat p mod 2 ^ 29 < 1024" by simp
        with \<open>G \<le> 2 ^ 29 - 1024\<close> have "unat p mod 2 ^ 29 + G < 2 ^ 29" by simp
        then have "unat (p + g) mod 2 ^ 29 = unat p mod 2 ^ 29 + G"
          by (simp only: step mod_less)
        with r G less.prems have "1024 - unat (p + g) mod 2 ^ 29 < n" by simp
        from less.IH [OF this refl] obtain ts where "block_tiles g (p + g) = Some ts" ..
        then show ?thesis by (simp add: block_tiles_step [OF r])
      qed
    qed
    then show ?thesis by blast
  next
    case False
    then have big: "2 ^ 29 - 1024 < G" by simp
    have "\<exists>ts. block_tiles g p = Some ts" if "n = unat p mod 2 ^ 29" for n p
      using that
    proof (induction n arbitrary: p rule: less_induct)
      case (less n)
      show ?case
      proof (cases "1024 \<le> unat p mod 2 ^ 29")
        case True
        then show ?thesis by (simp add: block_tiles_exit)
      next
        case False
        then have r: "unat p mod 2 ^ 29 < 1024" by simp
        have "\<exists>ts. block_tiles g (p + g) = Some ts"
        proof (cases "unat p mod 2 ^ 29 + G < 2 ^ 29")
          case True
          then have "unat (p + g) mod 2 ^ 29 = unat p mod 2 ^ 29 + G"
            by (simp only: step mod_less)
          with big have "1024 \<le> unat (p + g) mod 2 ^ 29" by simp
          then show ?thesis by (simp add: block_tiles_exit)
        next
          case False
          then have ge: "2 ^ 29 \<le> unat p mod 2 ^ 29 + G" by simp
          have "unat p mod 2 ^ 29 + G - 2 ^ 29 < 2 ^ 29" using G r by simp
          then have "(unat p mod 2 ^ 29 + G) mod 2 ^ 29 = unat p mod 2 ^ 29 + G - 2 ^ 29"
            by (simp only: le_mod_geq [OF ge] mod_less)
          then have "unat (p + g) mod 2 ^ 29 = unat p mod 2 ^ 29 + G - 2 ^ 29"
            by (simp only: step)
          with G ge less.prems have "unat (p + g) mod 2 ^ 29 < n" by simp
          from less.IH [OF this refl] show ?thesis .
        qed
        then obtain ts where "block_tiles g (p + g) = Some ts" ..
        then show ?thesis by (simp add: block_tiles_step [OF r])
      qed
    qed
    then show ?thesis by blast
  qed
qed


lemma tile_of_block_pos:
  assumes "unat p < 2 ^ 29"
  shows "(block_tile_i p, block_tile_j p) = tile_of_pos (unat p)"
proof -
  have "block_tile_i p = of_nat (unat (block_tile_i p))" by simp
  also have "\<dots> = of_nat (8 * (unat p div 32))"
    using assms by (simp only: unat_block_tile_i mod_less)
  finally have i: "block_tile_i p = of_nat (8 * (unat p div 32))" .
  have "block_tile_j p = of_nat (unat (block_tile_j p))" by simp
  also have "\<dots> = of_nat (8 * (unat p mod 32))"
    by (simp only: unat_block_tile_j)
  finally show ?thesis using i by (simp add: tile_of_pos_def)
qed

lemma block_tiles_stride:
  assumes g: "0 < unat g" "unat g \<le> 2 ^ 29 - 1024"
  shows "unat p < 2 ^ 29 \<Longrightarrow> n = unat p \<Longrightarrow>
         block_tiles g p = Some (map tile_of_pos (stride_positions (unat g) n))"
proof (induction "unat g" n arbitrary: p rule: stride_positions.induct)
  case (1 n)
  show ?case
  proof (cases "1024 \<le> n")
    case True
    with 1 have "1024 \<le> unat p mod 2 ^ 29" by simp
    then have "block_tiles g p = Some []" by (rule block_tiles_exit)
    with True show ?thesis by (simp add: stride_positions.simps)
  next
    case False
    with 1 have r: "unat p mod 2 ^ 29 < 1024" by simp
    have sum: "unat p + unat g < 2 ^ 29" using False 1(3) g by simp
    then have "unat p + unat g < 2 ^ 32" by simp
    then have u: "unat (p + g) = unat p + unat g"
      by (simp add: unat_word_ariths)
    have "block_tiles g (p + g) =
            Some (map tile_of_pos (stride_positions (unat g) (n + unat g)))"
      using g False sum u 1(3) by (intro 1(1)) simp_all
    moreover have "stride_positions (unat g) n = n # stride_positions (unat g) (n + unat g)"
      using False g by (subst stride_positions.simps) simp
    ultimately show ?thesis
      using 1(2,3) by (simp add: block_tiles_step [OF r] tile_of_block_pos)
  qed
qed

lemma stride_positions_set:
  "x \<in> set (stride_positions g p) \<longleftrightarrow> 0 < g \<and> p \<le> x \<and> x < 1024 \<and> g dvd (x - p)"
proof (induction g p rule: stride_positions.induct)
  case (1 g p)
  show ?case
  proof (cases "g = 0 \<or> 1024 \<le> p")
    case True
    then show ?thesis by (auto simp: stride_positions.simps [of g p])
  next
    case False
    then have g: "0 < g" and p: "p < 1024" by simp_all
    have "(p + g \<le> x \<and> g dvd (x - (p + g))) \<longleftrightarrow> (x \<noteq> p \<and> p \<le> x \<and> g dvd (x - p))"
    proof
      assume a: "p + g \<le> x \<and> g dvd (x - (p + g))"
      then have eq: "x - p = (x - (p + g)) + g" by simp
      from a have "g dvd (x - (p + g))" by blast
      then have "g dvd (x - (p + g)) + g" by (rule dvd_add) simp
      then have "g dvd (x - p)" by (simp only: eq)
      with a g show "x \<noteq> p \<and> p \<le> x \<and> g dvd (x - p)" by simp
    next
      assume a: "x \<noteq> p \<and> p \<le> x \<and> g dvd (x - p)"
      then have "0 < x - p" by simp
      with a have "g \<le> x - p" by (simp add: dvd_imp_le)
      with a have le: "p + g \<le> x" by linarith
      then have "x - (p + g) = (x - p) - g" by simp
      moreover from a have "g dvd (x - p)" by blast
      then have "g dvd (x - p) - g" by (rule dvd_diff_nat) simp
      ultimately show "p + g \<le> x \<and> g dvd (x - (p + g))" using le by simp
    qed
    with False 1 [OF False] p show ?thesis
      by (auto simp: stride_positions.simps [of g p])
  qed
qed

lemma stride_positions_distinct: "distinct (stride_positions g p)"
proof (induction g p rule: stride_positions.induct)
  case (1 g p)
  show ?case
  proof (cases "g = 0 \<or> 1024 \<le> p")
    case True
    then show ?thesis by (simp add: stride_positions.simps [of g p])
  next
    case False
    then have "p \<notin> set (stride_positions g (p + g))"
      by (simp add: stride_positions_set)
    with False 1 [OF False] show ?thesis
      by (simp add: stride_positions.simps [of g p])
  qed
qed

lemma stride_positions_block:
  assumes "b < g"
  shows "set (stride_positions g b) = {x. x < 1024 \<and> x mod g = b}"
proof (rule set_eqI)
  fix x
  have iff: "(b \<le> x \<and> g dvd (x - b)) \<longleftrightarrow> x mod g = b"
  proof
    assume a: "b \<le> x \<and> g dvd (x - b)"
    then have "x mod g = b mod g" by (simp add: mod_eq_dvd_iff_nat)
    with assms show "x mod g = b" by simp
  next
    assume a: "x mod g = b"
    have "x mod g \<le> x" by (rule mod_less_eq_dividend)
    with a have le: "b \<le> x" by simp
    from a assms have "x mod g = b mod g" by simp
    with le have "g dvd (x - b)" by (simp add: mod_eq_dvd_iff_nat)
    with le show "b \<le> x \<and> g dvd (x - b)" by simp
  qed
  have "x \<in> set (stride_positions g b) \<longleftrightarrow> x < 1024 \<and> (b \<le> x \<and> g dvd (x - b))"
    using assms by (simp only: stride_positions_set) (cases "g = 0"; blast)
  then show "x \<in> set (stride_positions g b) \<longleftrightarrow> x \<in> {x. x < 1024 \<and> x mod g = b}"
    by (simp only: iff mem_Collect_eq)
qed

lemma distinct_concat_upt:
  assumes "\<And>i. i < n \<Longrightarrow> distinct (f i)"
    and "\<And>i j. i < j \<Longrightarrow> j < n \<Longrightarrow> set (f i) \<inter> set (f j) = {}"
  shows "distinct (concat (map f [0..<n]))"
  using assms
proof (induction n)
  case 0
  show ?case by simp
next
  case (Suc n)
  have "distinct (concat (map f [0..<n]))"
    by (rule Suc.IH) (simp_all add: Suc.prems)
  moreover have "distinct (f n)" by (simp add: Suc.prems)
  moreover have "set (f i) \<inter> set (f n) = {}" if "i < n" for i
    using that by (simp add: Suc.prems(2))
  then have "set (concat (map f [0..<n])) \<inter> set (f n) = {}"
    by (fastforce simp: disjoint_iff)
  ultimately show ?case by simp
qed

lemma all_positions_distinct:
  assumes "0 < g"
  shows "distinct (concat (map (stride_positions g) [0..<g]))"
proof (rule distinct_concat_upt)
  show "distinct (stride_positions g i)" for i by (rule stride_positions_distinct)
  show "set (stride_positions g i) \<inter> set (stride_positions g j) = {}"
    if "i < j" "j < g" for i j
  proof -
    from that have "i < g" by simp
    with that show ?thesis by (auto simp: stride_positions_block)
  qed
qed

lemma all_positions_set:
  assumes "0 < g"
  shows "set (concat (map (stride_positions g) [0..<g])) = {0..<1024}"
proof -
  have "set (concat (map (stride_positions g) [0..<g])) = (\<Union>b\<in>{0..<g}. {x. x < 1024 \<and> x mod g = b})"
    by (simp add: stride_positions_block)
  also have "\<dots> = {0..<1024}" using assms by auto
  finally show ?thesis .
qed

lemma unat_of_nat32: "n < 2 ^ 32 \<Longrightarrow> unat (of_nat n :: 32 word) = n"
  by (simp add: unat_of_nat)

lemma tile_of_pos_row_col:
  "c < 32 \<Longrightarrow> tile_of_pos (32 * r + c) = (of_nat (r * 8), of_nat (c * 8))"
  by (simp add: tile_of_pos_def mult.commute)

lemma unat_tile_of_pos:
  assumes "n < 1024"
  shows "unat (fst (tile_of_pos n)) = 8 * (n div 32)" "unat (snd (tile_of_pos n)) = 8 * (n mod 32)"
proof -
  have "8 * (n div 32) < 2 ^ 32" using assms by simp
  then show "unat (fst (tile_of_pos n)) = 8 * (n div 32)"
    by (simp only: tile_of_pos_def fst_conv snd_conv unat_of_nat32)
  have "8 * (n mod 32) < 8 * 32" by simp
  then have "8 * (n mod 32) < 2 ^ 32" by simp
  then show "unat (snd (tile_of_pos n)) = 8 * (n mod 32)"
    by (simp only: tile_of_pos_def fst_conv snd_conv unat_of_nat32)
qed

lemma tile_of_pos_inj: "inj_on tile_of_pos {0..<1024}"
proof (rule inj_onI)
  fix m n assume m: "m \<in> {0..<1024}" and n: "n \<in> {0..<1024}"
    and eq: "tile_of_pos m = tile_of_pos n"
  from eq have "unat (fst (tile_of_pos m)) = unat (fst (tile_of_pos n))"
    and "unat (snd (tile_of_pos m)) = unat (snd (tile_of_pos n))" by simp_all
  with m n have "m div 32 = n div 32" and "m mod 32 = n mod 32"
    by (simp_all add: unat_tile_of_pos)
  then show "m = n" by (metis div_mult_mod_eq)
qed

lemma output_tiles_eq: "set output_tiles = tile_of_pos ` {0..<1024}"
proof -
  have "set output_tiles =
          (\<Union>r\<in>{0..<32}. (\<lambda>c. (of_nat (r * 8), of_nat (c * 8))) ` {0..<32})"
    by (simp add: output_tiles_def config_defs del: of_nat_mult)
  also have "\<dots> = (\<Union>r\<in>{0..<32}. (\<lambda>c. tile_of_pos (32 * r + c)) ` {0..<32})"
    by (intro SUP_cong refl image_cong) (simp add: tile_of_pos_row_col del: of_nat_mult)
  also have "\<dots> = tile_of_pos ` (\<Union>r\<in>{0..<32}. (\<lambda>c. 32 * r + c) ` {0..<32})"
    by blast
  also have "(\<Union>r\<in>{0..<32}. (\<lambda>c. 32 * r + c) ` {0..<32}) = {0..<1024::nat}"
  proof (rule set_eqI)
    fix n :: nat
    show "n \<in> (\<Union>r\<in>{0..<32}. (\<lambda>c. 32 * r + c) ` {0..<32}) \<longleftrightarrow> n \<in> {0..<1024}"
    proof
      assume "n \<in> (\<Union>r\<in>{0..<32}. (\<lambda>c. 32 * r + c) ` {0..<32})"
      then obtain r c :: nat where "r \<in> {0..<32}" "c \<in> {0..<32}" "n = 32 * r + c" by blast
      then show "n \<in> {0..<1024}" by simp
    next
      assume "n \<in> {0..<1024}"
      then have "n div 32 < 32" "n mod 32 < 32" "n = 32 * (n div 32) + n mod 32"
        by (simp_all add: less_mult_imp_div_less)
      then show "n \<in> (\<Union>r\<in>{0..<32}. (\<lambda>c. 32 * r + c) ` {0..<32})"
        by (metis (mono_tags, lifting) UN_iff atLeastLessThan_iff image_eqI zero_le)
    qed
  qed
  finally show ?thesis .
qed

lemma those_map_Some: "those (map (\<lambda>x. Some (f x)) xs) = Some (map f xs)"
  by (induction xs) simp_all

lemma grid_tiles_stride:
  assumes "1 \<le> unat g" "unat g \<le> 2 ^ 29 - 1024"
  shows "grid_tiles g =
           Some (map (\<lambda>b. map tile_of_pos (stride_positions (unat g) b)) [0..<unat g])"
proof -
  have "block_tiles g (of_nat b) = Some (map tile_of_pos (stride_positions (unat g) b))"
    if "b < unat g" for b
  proof -
    from that assms have "b < 2 ^ 29" by simp
    then have "b < 2 ^ 32" by simp
    then have u: "unat (of_nat b :: 32 word) = b" by (rule unat_of_nat32)
    show ?thesis
      using assms \<open>b < 2 ^ 29\<close> by (intro block_tiles_stride) (simp_all add: u)
  qed
  then have "map (\<lambda>b. block_tiles g (of_nat b)) [0..<unat g] =
             map (\<lambda>b. Some (map tile_of_pos (stride_positions (unat g) b))) [0..<unat g]"
    by simp
  then show ?thesis by (simp only: grid_tiles_def those_map_Some)
qed

subsection \<open>Termination of the loop\<close>

lemma block_tiles_diverges_aux:
  assumes "block_tiles g p = Some ts"
  shows "\<not> (unat g mod 2 ^ 29 = 0 \<and> unat p mod 2 ^ 29 < 1024)"
proof (rule block_tiles.raw_induct
    [where P = "\<lambda>g p ts. \<not> (unat g mod 2 ^ 29 = 0 \<and> unat p mod 2 ^ 29 < 1024)", OF _ assms])
  fix f :: "32 word \<Rightarrow> 32 word \<Rightarrow> (32 word \<times> 32 word) list option"
  fix g p :: "32 word" and ts
  assume IH: "\<And>g p ts. f g p = Some ts \<Longrightarrow>
                \<not> (unat g mod 2 ^ 29 = 0 \<and> unat p mod 2 ^ 29 < 1024)"
    and eq: "(if block_tile_i p \<ge> of_nat M_TILES then Some []
              else Option.bind (f g (p + g))
                     (\<lambda>rest. Some ((block_tile_i p, block_tile_j p) # rest))) = Some ts"
  show "\<not> (unat g mod 2 ^ 29 = 0 \<and> unat p mod 2 ^ 29 < 1024)"
  proof
    assume a: "unat g mod 2 ^ 29 = 0 \<and> unat p mod 2 ^ 29 < 1024"
    then have "\<not> block_tile_i p \<ge> of_nat M_TILES" by (simp add: loop_exit_iff)
    with eq obtain rest where rest: "f g (p + g) = Some rest"
      by (auto simp: bind_eq_Some_conv split: if_splits)
    have "unat (p + g) mod 2 ^ 29 = unat p mod 2 ^ 29"
      using a by (simp only: residue_step) simp
    with a IH [OF rest] show False by simp
  qed
qed

lemma block_tiles_diverges:
  assumes "unat g mod 2 ^ 29 = 0" "unat p mod 2 ^ 29 < 1024"
  shows "block_tiles g p = None"
proof (cases "block_tiles g p")
  case (Some ts)
  from block_tiles_diverges_aux [OF this] assms show ?thesis by simp
qed simp

text \<open>
  When the loop ends. A block leaves its grid-stride loop exactly when the number of
  blocks is not a multiple of \<open>2 ^ 29\<close>, or its own index is at least 1024 modulo
  \<open>2 ^ 29\<close>. In particular every block of a launch with 1 to \<open>2 ^ 29 - 1\<close> blocks
  terminates.
\<close>

theorem grid_stride_loop_terminates:
  "(\<exists>ts. block_tiles gridDim blockIdx = Some ts) \<longleftrightarrow>
     (unat gridDim mod 2 ^ 29 \<noteq> 0 \<or> 1024 \<le> unat blockIdx mod 2 ^ 29)"
proof
  assume "\<exists>ts. block_tiles gridDim blockIdx = Some ts"
  then show "unat gridDim mod 2 ^ 29 \<noteq> 0 \<or> 1024 \<le> unat blockIdx mod 2 ^ 29"
    using block_tiles_diverges [of gridDim blockIdx] by fastforce
next
  assume "unat gridDim mod 2 ^ 29 \<noteq> 0 \<or> 1024 \<le> unat blockIdx mod 2 ^ 29"
  then show "\<exists>ts. block_tiles gridDim blockIdx = Some ts"
    using block_tiles_terminates [of gridDim blockIdx] block_tiles_exit [of blockIdx gridDim]
    by blast
qed

theorem grid_stride_loop_terminates_witness:
  "(\<exists>ts. block_tiles 80 3 = Some ts) \<and> unat (80 :: 32 word) mod 2 ^ 29 \<noteq> 0"
  using grid_stride_loop_terminates [of 80 3] by simp

text \<open>
  C8, the code at the failing launch. Each block's grid-stride loop should terminate, and
  the source says so itself (\<^verbatim>\<open>Once there's no such tile, all warps in this CTA exit\<close>).
  In a launch with \<open>2 ^ 29\<close> blocks, block 0 never leaves the loop: \<open>block_pos\<close> runs
  through the multiples of \<open>2 ^ 29\<close>, the 32-bit product \<open>block_pos * 8\<close> wraps to 0
  at every iteration, so \<open>block_tile_i\<close> stays 0 and never reaches \<^verbatim>\<open>M_TILES\<close>.
\<close>

theorem grid_stride_loop_diverges_counterexample:
  "block_tiles 0x20000000 0 = None"
  by (rule block_tiles_diverges) simp_all

subsection \<open>Coverage, and the first tile of large grids\<close>

lemma grid_tiles_positions:
  assumes "1 \<le> unat g" and "unat g \<le> 2 ^ 29 - 1024"
  shows "\<exists>pss. grid_tiles g = Some (map (map tile_of_pos) pss) \<and> length pss = unat g \<and>
           distinct (concat pss) \<and> set (concat pss) = {0..<1024}"
proof -
  define pss where "pss = map (stride_positions (unat g)) [0..<unat g]"
  have g: "0 < unat g" using assms by simp
  have "grid_tiles g = Some (map (map tile_of_pos) pss)"
    using grid_tiles_stride [OF assms] by (simp add: pss_def comp_def)
  moreover have "length pss = unat g" by (simp add: pss_def)
  moreover have "distinct (concat pss)"
    unfolding pss_def using g by (rule all_positions_distinct)
  moreover have "set (concat pss) = {0..<1024}"
    unfolding pss_def using g by (rule all_positions_set)
  ultimately show ?thesis by blast
qed

lemma not_distinct_concat_upt:
  "i < j \<Longrightarrow> j < n \<Longrightarrow> x \<in> set (f i) \<Longrightarrow> x \<in> set (f j) \<Longrightarrow>
   \<not> distinct (concat (map f [0..<n]))"
proof (induction n)
  case 0
  then show ?case by simp
next
  case (Suc n)
  show ?case
  proof (cases "j = n")
    case True
    with Suc.prems have "x \<in> set (concat (map f [0..<n]))" by auto
    with True Suc.prems show ?thesis by auto
  next
    case False
    with Suc.prems have "j < n" by simp
    with Suc have "\<not> distinct (concat (map f [0..<n]))" by simp
    then show ?thesis by simp
  qed
qed

lemma block_tiles_first:
  assumes g: "unat g mod 2 ^ 29 \<noteq> 0" and p: "unat p mod 2 ^ 29 = 0"
  shows "\<exists>rest. block_tiles g p = Some ((0, 0) # rest)"
proof -
  from block_tiles_terminates [OF g] obtain rest where "block_tiles g (p + g) = Some rest" ..
  moreover have "unat (block_tile_i p) = 0" unfolding unat_block_tile_i p by simp
  then have "block_tile_i p = 0" by (simp add: unat_eq_0)
  moreover have "unat p mod 32 = (unat p mod 2 ^ 29) mod 32" by (simp add: mod_mod_cancel)
  then have "unat (block_tile_j p) = 0" unfolding unat_block_tile_j p by simp
  then have "block_tile_j p = 0" by (simp add: unat_eq_0)
  moreover have r: "unat p mod 2 ^ 29 < 1024" unfolding p by simp
  ultimately show ?thesis by (simp add: block_tiles_step [OF r])
qed

lemma large_grid_tiles:
  "\<exists>f. grid_tiles 0x7FFFFFFF = Some (map f [0..<unat (0x7FFFFFFF :: 32 word)]) \<and>
       (0, 0) \<in> set (f 0) \<and> (0, 0) \<in> set (f (2 ^ 29))"
proof -
  define g :: "32 word" where "g = 0x7FFFFFFF"
  define f where "f b = the (block_tiles g (of_nat b))" for b
  have g: "unat g mod 2 ^ 29 \<noteq> 0" by (simp add: g_def)
  have "block_tiles g (of_nat b) = Some (f b)" for b
    using block_tiles_terminates [OF g, of "of_nat b"] by (auto simp: f_def)
  then have "grid_tiles g = Some (map f [0..<unat g])"
    by (simp only: grid_tiles_def those_map_Some)
  moreover have "(0, 0) \<in> set (f 0)"
    using block_tiles_first [OF g, of "of_nat 0"] by (auto simp: f_def)
  moreover have "(0, 0) \<in> set (f (2 ^ 29))"
    using block_tiles_first [OF g, of "of_nat (2 ^ 29)"] by (auto simp: f_def)
  ultimately show ?thesis unfolding g_def by blast
qed

lemma tile_of_residue:
  assumes "unat p mod 2 ^ 29 < 1024"
  shows "(block_tile_i p, block_tile_j p) = tile_of_pos (unat p mod 2 ^ 29)"
proof -
  have "block_tile_i p = of_nat (unat (block_tile_i p))" by simp
  also have "\<dots> = of_nat (8 * ((unat p mod 2 ^ 29) div 32))"
    by (simp only: unat_block_tile_i)
  finally have i: "block_tile_i p = of_nat (8 * ((unat p mod 2 ^ 29) div 32))" .
  have m: "(unat p mod 2 ^ 29) mod 32 = unat p mod 32" by (simp add: mod_mod_cancel)
  have "block_tile_j p = of_nat (unat (block_tile_j p))" by simp
  also have "\<dots> = of_nat (8 * ((unat p mod 2 ^ 29) mod 32))"
    by (simp only: unat_block_tile_j m)
  finally show ?thesis using i by (simp only: tile_of_pos_def)
qed

lemma block_tiles_range:
  assumes "block_tiles g p = Some ts"
  shows "set ts \<subseteq> tile_of_pos ` {0..<1024}"
proof (rule block_tiles.raw_induct
    [where P = "\<lambda>g p ts. set ts \<subseteq> tile_of_pos ` {0..<1024}", OF _ assms])
  fix f :: "32 word \<Rightarrow> 32 word \<Rightarrow> (32 word \<times> 32 word) list option"
  fix g p :: "32 word" and ts
  assume IH: "\<And>g p ts. f g p = Some ts \<Longrightarrow> set ts \<subseteq> tile_of_pos ` {0..<1024}"
    and eq: "(if block_tile_i p \<ge> of_nat M_TILES then Some []
              else Option.bind (f g (p + g))
                     (\<lambda>rest. Some ((block_tile_i p, block_tile_j p) # rest))) = Some ts"
  show "set ts \<subseteq> tile_of_pos ` {0..<1024}"
  proof (cases "1024 \<le> unat p mod 2 ^ 29")
    case True
    with eq show ?thesis by (simp add: loop_exit_iff)
  next
    case False
    then have r: "unat p mod 2 ^ 29 < 1024" by simp
    with eq obtain rest where rest: "f g (p + g) = Some rest"
      and ts: "ts = (block_tile_i p, block_tile_j p) # rest"
      by (auto simp: loop_exit_iff bind_eq_Some_conv)
    have "(block_tile_i p, block_tile_j p) \<in> tile_of_pos ` {0..<1024}"
      unfolding tile_of_residue [OF r] using r by (intro imageI) simp
    with IH [OF rest] show ?thesis by (simp add: ts)
  qed
qed

lemma block_tiles_head:
  assumes g: "unat g mod 2 ^ 29 \<noteq> 0" and p: "unat p mod 2 ^ 29 < 1024"
  shows "\<exists>rest. block_tiles g p = Some (tile_of_pos (unat p mod 2 ^ 29) # rest)"
proof -
  from block_tiles_terminates [OF g] obtain rest where "block_tiles g (p + g) = Some rest" ..
  then show ?thesis by (simp add: block_tiles_step [OF p] tile_of_residue [OF p])
qed

lemma grid_tiles_terminating:
  assumes g: "unat g mod 2 ^ 29 \<noteq> 0"
  shows "\<exists>f. grid_tiles g = Some (map f [0..<unat g]) \<and>
             (\<forall>b. block_tiles g (of_nat b) = Some (f b))"
proof -
  define f where "f b = the (block_tiles g (of_nat b))" for b
  have f: "block_tiles g (of_nat b) = Some (f b)" for b
    using block_tiles_terminates [OF g, of "of_nat b"] by (auto simp: f_def)
  then have "grid_tiles g = Some (map f [0..<unat g])"
    by (simp only: grid_tiles_def those_map_Some)
  with f show ?thesis by blast
qed

lemma grid_tiles_cover:
  assumes g: "unat g mod 2 ^ 29 \<noteq> 0"
  shows "\<exists>tss. grid_tiles g = Some tss \<and> length tss = unat g \<and>
           set (concat tss) = set output_tiles"
proof (cases "unat g \<le> 2 ^ 29 - 1024")
  case True
  from g have "1 \<le> unat g" by (cases "unat g = 0") simp_all
  from grid_tiles_positions [OF this True] obtain pss
    where "grid_tiles g = Some (map (map tile_of_pos) pss)" "length pss = unat g"
      and "set (concat pss) = {0..<1024}"
    by blast
  moreover from this(3)
  have "set (concat (map (map tile_of_pos) pss)) = tile_of_pos ` {0..<1024}"
    by (simp only: map_concat [symmetric] set_map)
  ultimately show ?thesis by (simp add: output_tiles_eq)
next
  case False
  then have big: "1024 < unat g" by simp
  from grid_tiles_terminating [OF g] obtain f
    where tiles: "grid_tiles g = Some (map f [0..<unat g])"
      and f: "\<And>b. block_tiles g (of_nat b) = Some (f b)"
    by blast
  have "set (concat (map f [0..<unat g])) = tile_of_pos ` {0..<1024}"
  proof
    show "set (concat (map f [0..<unat g])) \<subseteq> tile_of_pos ` {0..<1024}"
      using block_tiles_range [OF f] by auto
    show "tile_of_pos ` {0..<1024} \<subseteq> set (concat (map f [0..<unat g]))"
    proof
      fix t assume "t \<in> tile_of_pos ` {0..<1024}"
      then obtain n where n: "n < 1024" and t: "t = tile_of_pos n" by auto
      from n have u: "unat (of_nat n :: 32 word) = n" by (intro unat_of_nat32) simp
      have r: "unat (of_nat n :: 32 word) mod 2 ^ 29 = n" using n by (simp add: u)
      with n have "unat (of_nat n :: 32 word) mod 2 ^ 29 < 1024" by simp
      from block_tiles_head [OF g this] have "t \<in> set (f n)"
        unfolding r f t by auto
      moreover have "n < unat g" using n big by simp
      ultimately show "t \<in> set (concat (map f [0..<unat g]))" by auto
    qed
  qed
  with tiles show ?thesis by (simp add: output_tiles_eq)
qed

lemma first_tile_twice:
  assumes g: "unat g mod 2 ^ 29 \<noteq> 0" and big: "2 ^ 29 - 1024 < unat g"
    and f: "\<And>b. block_tiles g (of_nat b) = Some (f b)"
  shows "\<exists>b. 0 < b \<and> b < unat g \<and> (0, 0) \<in> set (f 0) \<and> (0, 0) \<in> set (f b)"
proof -
  have zero: "(0, 0) \<in> set (f 0)"
    using block_tiles_first [OF g, of "of_nat 0"] f [of 0] by auto
  show ?thesis
  proof (cases "unat g < 2 ^ 29")
    case True
    define e where "e = 2 ^ 29 - unat g"
    have e: "0 < e" "e < 1024" "e < unat g" using True big by (simp_all add: e_def)
    have ue: "unat (of_nat e :: 32 word) = e" using e by (intro unat_of_nat32) simp
    have "unat (of_nat e + g :: 32 word) mod 2 ^ 29 = (e + unat g) mod 2 ^ 29"
      using True e by (simp only: residue_step ue mod_add_eq)
    also have "e + unat g = 2 ^ 29" using True by (simp add: e_def)
    finally have r: "unat (of_nat e + g :: 32 word) mod 2 ^ 29 = 0" by simp
    from block_tiles_first [OF g r] obtain rest
      where "block_tiles g (of_nat e + g) = Some ((0, 0) # rest)" ..
    moreover have re: "unat (of_nat e :: 32 word) mod 2 ^ 29 < 1024" using e by (simp add: ue)
    ultimately have "f e = (block_tile_i (of_nat e), block_tile_j (of_nat e)) # (0, 0) # rest"
      using f [of e] by (simp add: block_tiles_step [OF re])
    then have "(0, 0) \<in> set (f e)" by simp
    with zero e show ?thesis by blast
  next
    case False
    with g have lt: "2 ^ 29 < unat g" by (cases "unat g = 2 ^ 29") simp_all
    have "(0, 0) \<in> set (f (2 ^ 29))"
      using block_tiles_first [OF g, of "of_nat (2 ^ 29)"] f [of "2 ^ 29"] by auto
    with zero lt show ?thesis by (intro exI [of _ "2 ^ 29"]) simp
  qed
qed

lemma grid_tiles_duplicate:
  assumes g: "unat g mod 2 ^ 29 \<noteq> 0" and big: "2 ^ 29 - 1024 < unat g"
    and tiles: "grid_tiles g = Some tss"
  shows "\<not> distinct (concat tss)"
proof -
  from grid_tiles_terminating [OF g] obtain f
    where t: "grid_tiles g = Some (map f [0..<unat g])"
      and f: "\<And>b. block_tiles g (of_nat b) = Some (f b)"
    by blast
  from first_tile_twice [OF g big f] obtain b
    where "0 < b" "b < unat g" "(0, 0) \<in> set (f 0)" "(0, 0) \<in> set (f b)"
    by blast
  then have "\<not> distinct (concat (map f [0..<unat g]))"
    by (rule not_distinct_concat_upt)
  with t tiles show ?thesis by simp
qed

subsection \<open>The tile partition\<close>

text \<open>
  Where the scheduler partitions the tiles. For every number of thread blocks that is not
  a multiple of \<open>2 ^ 29\<close>, every block of the launch leaves its loop, and the tiles
  \<open>(block_tile_i, block_tile_j)\<close> the blocks work on, taken over all blocks, are exactly
  the 128x128 output tiles of D, none left out. No tile is assigned twice exactly when
  the number of blocks is at most \<open>2 ^ 29 - 1024\<close> (536869888): up to there
  \<open>block_pos * 8\<close> does not wrap before the loop ends.
\<close>

theorem grid_stride_partition:
  assumes "unat gridDim mod 2 ^ 29 \<noteq> 0"
  shows "\<exists>tss. grid_tiles gridDim = Some tss \<and> length tss = unat gridDim \<and>
           set (concat tss) = set output_tiles \<and>
           (distinct (concat tss) \<longleftrightarrow> unat gridDim \<le> 2 ^ 29 - 1024)"
proof -
  from grid_tiles_cover [OF assms] obtain tss
    where tiles: "grid_tiles gridDim = Some tss" and len: "length tss = unat gridDim"
      and cover: "set (concat tss) = set output_tiles"
    by blast
  have "distinct (concat tss) \<longleftrightarrow> unat gridDim \<le> 2 ^ 29 - 1024"
  proof (cases "unat gridDim \<le> 2 ^ 29 - 1024")
    case True
    from assms have "1 \<le> unat gridDim" by (cases "unat gridDim = 0") simp_all
    from grid_tiles_positions [OF this True] tiles obtain pss
      where tss: "tss = map (map tile_of_pos) pss"
        and d: "distinct (concat pss)" and s: "set (concat pss) = {0..<1024}"
      by auto
    have cc: "concat tss = map tile_of_pos (concat pss)"
      by (simp add: tss map_concat)
    have "inj_on tile_of_pos (set (concat pss))"
      by (simp only: s tile_of_pos_inj)
    with d have "distinct (concat tss)"
      unfolding cc by (simp only: distinct_map simp_thms)
    with True show ?thesis by simp
  next
    case False
    then have "2 ^ 29 - 1024 < unat gridDim" by simp
    with assms have "\<not> distinct (concat tss)"
      using tiles by (rule grid_tiles_duplicate)
    with False show ?thesis by simp
  qed
  with tiles len cover show ?thesis by blast
qed

theorem grid_stride_partition_witness:
  "unat (80 :: 32 word) mod 2 ^ 29 \<noteq> 0 \<and>
   (\<exists>tss. grid_tiles 80 = Some tss \<and> length tss = 80 \<and>
      set (concat tss) = set output_tiles \<and> distinct (concat tss))"
  using grid_stride_partition [of 80] by simp


section \<open>Properties of the encoder\<close>

subsection \<open>A for-loop rule, and bit counting\<close>

lemma fold_upt_inv:
  assumes "P 0 s" and "\<And>k s. k < n \<Longrightarrow> P k s \<Longrightarrow> P (Suc k) (f k s)"
  shows "P n (fold f [0..<n] s)"
  using assms(2)
proof (induction n)
  case 0
  show ?case by (simp add: assms(1))
next
  case (Suc n)
  have "P n (fold f [0..<n] s)" by (rule Suc.IH) (simp add: Suc.prems)
  then have "P (Suc n) (f n (fold f [0..<n] s))" by (rule Suc.prems [OF lessI])
  then show ?case by simp
qed

lemma selected_Suc:
  "selected zi kg i j (Suc q) = selected zi kg i j q @ (if zi (blk_idx kg i j q) then [q] else [])"
  by (simp add: selected_def)

lemma popcount_card: "popcount w = card {n. n < 32 \<and> bit w n}"
proof -
  have "popcount w = card (set (filter (bit w) [0..<32]))"
    unfolding popcount_def by (rule distinct_card [symmetric]) simp
  also have "set (filter (bit w) [0..<32]) = {n. n < 32 \<and> bit w n}" by auto
  finally show ?thesis .
qed

lemma popcount_set_bit:
  assumes "n < 32" "\<not> bit w n"
  shows "popcount (w OR push_bit n 1) = Suc (popcount w)"
proof -
  have "{m. m < 32 \<and> bit (w OR push_bit n 1) m} = insert n {m. m < 32 \<and> bit w m}"
    using assms by (auto simp: bit_or_iff bit_exp_iff)
  moreover have "finite {m. m < 32 \<and> bit w m}" by simp
  moreover have "n \<notin> {m. m < 32 \<and> bit w m}" using assms by simp
  ultimately show ?thesis by (simp add: popcount_card)
qed

lemma popcount_0: "popcount 0 = 0"
  by (simp add: popcount_def)

lemma split_pos:
  assumes "(q::nat) < 256"
  shows "(q div 16) div 2 = q div 32" "((q div 16) mod 2) * 16 + q mod 16 = q mod 32"
    "q div 32 < 8"
proof -
  show a: "(q div 16) div 2 = q div 32" by (simp add: div_mult2_eq)
  have "q mod 32 = 16 * ((q div 16) mod 2) + q mod 16"
    using mod_mult2_eq [of q 16 2] by simp
  then show "((q div 16) mod 2) * 16 + q mod 16 = q mod 32" by simp
  show "q div 32 < 8" using assms by simp
qed

text \<open>
  The bit of element (row 1, column 15) of a block is bit 31 of the block's first word:
  \<^verbatim>\<open>1 << 31\<close> sets the sign bit of the \<^verbatim>\<open>int\<close>.
\<close>

lemma encode_elem_example:
  "snd (encode_elem src (\<lambda>_. True) kg i j 1 15 (e, replicate 8 0)) =
     [0x80000000, 0, 0, 0, 0, 0, 0, 0]"
  by (simp add: encode_elem_def numeral_eq_Suc)

subsection \<open>One block\<close>

lemma block_inv_step:
  assumes q: "q < 256" and inv: "block_inv src zi kg i j e q s"
  shows "block_inv src zi kg i j e (Suc q) (encode_elem src zi kg i j (q div 16) (q mod 16) s)"
proof -
  obtain e' si where s: "s = (e', si)" by (cases s)
  define L where "L = selected zi kg i j q"
  from inv have len: "length si = 8"
    and nc: "new_count e' = new_count e + length L"
    and ci: "count_info e' = count_info e + length L"
    and so: "sparse_out e' = sparse_out e" and ts: "tsize_out e' = tsize_out e"
    and pc: "sum_list (map popcount si) = length L"
    unfolding block_inv_def s L_def by simp_all
  from inv have nb: "new_buf e' n =
           (if new_count e \<le> n \<and> n < new_count e + length L
            then src (blk_idx kg i j (L ! (n - new_count e))) else new_buf e n)" for n
    unfolding block_inv_def s L_def by simp
  from inv have bits: "bit (si ! k) n \<longleftrightarrow> n < 32 \<and> 32 * k + n < q \<and> zi (blk_idx kg i j (32 * k + n))"
    if "k < 8" for k n
    using that unfolding block_inv_def s by simp
  show ?thesis
  proof (cases "zi (blk_idx kg i j q)")
    case False
    have enc: "encode_elem src zi kg i j (q div 16) (q mod 16) (e', si) = (e', si)"
      using False by (simp add: encode_elem_def blk_idx_def)
    have selected': "selected zi kg i j (Suc q) = L"
      using False by (simp add: selected_Suc L_def)
    have "(32 * k + n < Suc q \<and> zi (blk_idx kg i j (32 * k + n))) \<longleftrightarrow>
          (32 * k + n < q \<and> zi (blk_idx kg i j (32 * k + n)))" for k n
      using False by (auto simp: less_Suc_eq)
    then show ?thesis
      unfolding s enc block_inv_def selected' prod.case
      using len nc ci so ts pc nb bits by simp
  next
    case True
    define k0 where "k0 = q div 32"
    define n0 where "n0 = q mod 32"
    have k0: "k0 < 8" and n0: "n0 < 32" and q_eq: "32 * k0 + n0 = q"
      using q by (simp_all add: k0_def n0_def)
    define si' where "si' = si[k0 := si ! k0 OR push_bit n0 1]"
    define e'' where "e'' = e'\<lparr>new_buf := (new_buf e') (new_count e' := src (blk_idx kg i j q)),
                              new_count := new_count e' + 1, count_info := count_info e' + 1\<rparr>"
    have enc: "encode_elem src zi kg i j (q div 16) (q mod 16) (e', si) = (e'', si')"
      using True split_pos [OF q]
      by (simp add: encode_elem_def blk_idx_def si'_def e''_def k0_def n0_def)
    have selected': "selected zi kg i j (Suc q) = L @ [q]"
      using True by (simp add: selected_Suc L_def)
    have unset: "\<not> bit (si ! k0) n0"
      using bits [OF k0, of n0] q_eq by simp
    have c1: "length si' = 8" by (simp add: si'_def len)
    have c2: "new_count e'' = new_count e + length (L @ [q])" by (simp add: e''_def nc)
    have c3: "count_info e'' = count_info e + length (L @ [q])" by (simp add: e''_def ci)
    have c4: "sparse_out e'' = sparse_out e" "tsize_out e'' = tsize_out e"
      by (simp_all add: e''_def so ts)
    have c5: "new_buf e'' n =
           (if new_count e \<le> n \<and> n < new_count e + length (L @ [q])
            then src (blk_idx kg i j ((L @ [q]) ! (n - new_count e))) else new_buf e n)" for n
    proof (cases "n = new_count e + length L")
      case True
      then show ?thesis by (simp add: e''_def nc nth_append)
    next
      case False
      then have "new_buf e'' n = new_buf e' n" by (simp add: e''_def nc)
      with False show ?thesis by (auto simp: nb nth_append)
    qed
    have c6: "bit (si' ! k) n \<longleftrightarrow> n < 32 \<and> 32 * k + n < Suc q \<and> zi (blk_idx kg i j (32 * k + n))"
      if k: "k < 8" for k n
    proof (cases "k = k0")
      case True
      have "bit (si' ! k0) n \<longleftrightarrow> bit (si ! k0) n \<or> (n < 32 \<and> n = n0)"
        using k0 len by (auto simp: si'_def bit_or_iff bit_exp_iff)
      also have "\<dots> \<longleftrightarrow> n < 32 \<and> 32 * k0 + n < Suc q \<and> zi (blk_idx kg i j (32 * k0 + n))"
        using bits [OF k0, of n] q_eq \<open>zi (blk_idx kg i j q)\<close> n0 by auto
      finally show ?thesis using True by simp
    next
      case False
      then have "si' ! k = si ! k" by (simp add: si'_def)
      moreover have "32 * k + n \<noteq> q" if "n < 32"
      proof
        assume "32 * k + n = q"
        then have "q div 32 = k" using that by simp
        with False show False by (simp add: k0_def)
      qed
      ultimately show ?thesis using bits [OF k, of n] by (auto simp: less_Suc_eq)
    qed
    have "map popcount si' = (map popcount si)[k0 := Suc (popcount (si ! k0))]"
      using popcount_set_bit [OF n0 unset] by (simp add: si'_def map_update)
    then have "sum_list (map popcount si') = sum_list (map popcount si) + Suc (popcount (si ! k0)) - popcount (si ! k0)"
      using k0 len by (simp add: sum_list_update)
    then have c7: "sum_list (map popcount si') = length (L @ [q])"
      by (simp add: pc)
    show ?thesis
      unfolding s enc block_inv_def selected' prod.case
      using c1 c2 c3 c4 c5 c6 c7 by blast
  qed
qed

lemma block_inv_init: "block_inv src zi kg i j e 0 (e, replicate 8 0)"
proof -
  have "(replicate 8 (0 :: 32 word)) ! k = 0" if "k < 8" for k
    using that by simp
  moreover have "map popcount (replicate 8 0) = replicate 8 0"
    by (simp add: popcount_0)
  ultimately show ?thesis
    by (auto simp: block_inv_def selected_def)
qed

lemma block_inv_all:
  "block_inv src zi kg i j e 256
     (fold (\<lambda>ii. fold (\<lambda>jj. encode_elem src zi kg i j ii jj) [0..<TILING_SIZE])
        [0..<TILING_SIZE] (e, replicate 8 0))"
proof -
  have inner: "block_inv src zi kg i j e (16 * Suc ii)
                 (fold (\<lambda>jj. encode_elem src zi kg i j ii jj) [0..<16] s)"
    if ii: "ii < 16" and s: "block_inv src zi kg i j e (16 * ii) s" for ii s
  proof -
    have "block_inv src zi kg i j e (16 * ii + 16)
            (fold (\<lambda>jj. encode_elem src zi kg i j ii jj) [0..<16] s)"
    proof (rule fold_upt_inv [where P = "\<lambda>jj. block_inv src zi kg i j e (16 * ii + jj)"])
      show "block_inv src zi kg i j e (16 * ii + 0) s" using s by simp
    next
      fix jj s' assume jj: "jj < 16" and s': "block_inv src zi kg i j e (16 * ii + jj) s'"
      have "16 * ii + jj < 256" using ii jj by simp
      from block_inv_step [OF this s'] jj
      show "block_inv src zi kg i j e (16 * ii + Suc jj) (encode_elem src zi kg i j ii jj s')"
        by simp
    qed
    moreover have "16 * Suc ii = 16 * ii + 16" by simp
    ultimately show ?thesis by (simp only:)
  qed
  have "block_inv src zi kg i j e (16 * 16)
          (fold (\<lambda>ii. fold (\<lambda>jj. encode_elem src zi kg i j ii jj) [0..<16]) [0..<16]
             (e, replicate 8 0))"
  proof (rule fold_upt_inv [where P = "\<lambda>ii. block_inv src zi kg i j e (16 * ii)"])
    show "block_inv src zi kg i j e (16 * 0) (e, replicate 8 0)"
      by (simp add: block_inv_init)
  qed (rule inner)
  then show ?thesis by (simp add: TILING_SIZE_def)
qed

lemma write_sparse_info:
  fixes e :: enc
  shows "fold (\<lambda>k e. e\<lparr>sparse_out := (sparse_out e) (base + k := si ! k)\<rparr>) [0..<n] e =
     e\<lparr>sparse_out := (\<lambda>x. if base \<le> x \<and> x < base + n then si ! (x - base) else sparse_out e x)\<rparr>"
proof (induction n)
  case 0
  have "(\<lambda>x. if base \<le> x \<and> x < base + 0 then si ! (x - base) else sparse_out e x) =
        sparse_out e"
    by (rule ext) auto
  then show ?case by simp
next
  case (Suc n)
  define f where "f = (\<lambda>k (e :: enc). e\<lparr>sparse_out := (sparse_out e) (base + k := si ! k)\<rparr>)"
  define g where "g n = (\<lambda>x. if base \<le> x \<and> x < base + n then si ! (x - base) else sparse_out e x)" for n
  have step: "(g n) (base + n := si ! n) = g (Suc n)"
    unfolding g_def by (rule ext) auto
  have "fold f [0..<Suc n] e = f n (fold f [0..<n] e)" by simp
  also have "fold f [0..<n] e = e\<lparr>sparse_out := g n\<rparr>"
    using Suc by (simp only: f_def g_def)
  also have "f n (e\<lparr>sparse_out := g n\<rparr>) = e\<lparr>sparse_out := (g n) (base + n := si ! n)\<rparr>"
    unfolding f_def by simp
  finally have "fold f [0..<Suc n] e = e\<lparr>sparse_out := g (Suc n)\<rparr>"
    by (simp only: step)
  then show ?case unfolding f_def g_def .
qed

lemma encode_block_props:
  "\<exists>si. length si = 8 \<and>
     (\<forall>k<8. \<forall>n. bit (si ! k) n \<longleftrightarrow> n < 32 \<and> zi (blk_idx kg i j (32 * k + n))) \<and>
     sum_list (map popcount si) = length (selected zi kg i j 256) \<and>
     new_count (encode_block src zi kg i j e) = new_count e + length (selected zi kg i j 256) \<and>
     count_info (encode_block src zi kg i j e) = count_info e + length (selected zi kg i j 256) \<and>
     tsize_out (encode_block src zi kg i j e) =
       (tsize_out e) ((i * kg) div TILING_SIZE + j := count_info e + length (selected zi kg i j 256)) \<and>
     (\<forall>x. sparse_out (encode_block src zi kg i j e) x =
           (if ((i * kg) div TILING_SIZE + j) * 8 \<le> x \<and> x < ((i * kg) div TILING_SIZE + j) * 8 + 8
            then si ! (x - ((i * kg) div TILING_SIZE + j) * 8) else sparse_out e x)) \<and>
     (\<forall>n. new_buf (encode_block src zi kg i j e) n =
           (if new_count e \<le> n \<and> n < new_count e + length (selected zi kg i j 256)
            then src (blk_idx kg i j (selected zi kg i j 256 ! (n - new_count e))) else new_buf e n))"
proof -
  define e2 where "e2 = encode_block src zi kg i j e"
  define blk where "blk = (i * kg) div TILING_SIZE + j"
  define L where "L = selected zi kg i j 256"
  obtain e' si where r: "fold (\<lambda>ii. fold (\<lambda>jj. encode_elem src zi kg i j ii jj) [0..<TILING_SIZE])
        [0..<TILING_SIZE] (e, replicate 8 0) = (e', si)"
    by (cases "fold (\<lambda>ii. fold (\<lambda>jj. encode_elem src zi kg i j ii jj) [0..<TILING_SIZE])
        [0..<TILING_SIZE] (e, replicate 8 0)")
  have inv: "block_inv src zi kg i j e 256 (e', si)"
    using block_inv_all [of src zi kg i j e] by (simp only: r)
  have e2: "e2 = (e'\<lparr>sparse_out := (\<lambda>x. if blk * 8 \<le> x \<and> x < blk * 8 + 8
                                       then si ! (x - blk * 8) else sparse_out e' x)\<rparr>)
                 \<lparr>tsize_out := (tsize_out e') (blk := count_info e')\<rparr>"
    unfolding e2_def encode_block_def r prod.case write_sparse_info blk_def by simp
  have c1: "length si = 8" using inv by (simp add: block_inv_def)
  have c2: "bit (si ! k) n \<longleftrightarrow> n < 32 \<and> zi (blk_idx kg i j (32 * k + n))" if "k < 8" for k n
  proof -
    have "n < 32 \<Longrightarrow> 32 * k + n < 256" using that by simp
    moreover from inv that have "bit (si ! k) n \<longleftrightarrow>
        n < 32 \<and> 32 * k + n < 256 \<and> zi (blk_idx kg i j (32 * k + n))"
      by (simp add: block_inv_def)
    ultimately show ?thesis by blast
  qed
  have c3: "sum_list (map popcount si) = length L" using inv by (simp add: block_inv_def L_def)
  have c4: "new_count e2 = new_count e + length L" using inv by (simp add: block_inv_def L_def e2)
  have c5: "count_info e2 = count_info e + length L" using inv by (simp add: block_inv_def L_def e2)
  have c6: "tsize_out e2 = (tsize_out e) (blk := count_info e + length L)"
    using inv by (simp add: block_inv_def L_def e2)
  have c7: "sparse_out e2 x =
         (if blk * 8 \<le> x \<and> x < blk * 8 + 8 then si ! (x - blk * 8) else sparse_out e x)" for x
    using inv by (simp add: block_inv_def e2)
  have c8: "new_buf e2 n =
         (if new_count e \<le> n \<and> n < new_count e + length L
          then src (blk_idx kg i j (L ! (n - new_count e))) else new_buf e n)" for n
    using inv by (simp add: block_inv_def L_def e2)
  show ?thesis
    unfolding e2_def [symmetric] blk_def [symmetric] L_def [symmetric]
    using c1 c2 c3 c4 c5 c6 c7 c8 by blast
qed

subsection \<open>The whole matrix\<close>

lemma block_popcount_list:
  assumes "length si = 8" and "\<And>k. k < 8 \<Longrightarrow> sparse (blk * 8 + k) = si ! k"
  shows "block_popcount sparse blk = sum_list (map popcount si)"
proof -
  have "map (\<lambda>k. popcount (sparse (blk * 8 + k))) [0..<8] = map (\<lambda>k. popcount (si ! k)) [0..<8]"
    by (rule map_cong) (simp_all add: assms(2))
  also have "\<dots> = map popcount (map (\<lambda>k. si ! k) [0..<length si])"
    by (simp add: assms(1))
  also have "\<dots> = map popcount si" by (simp only: map_nth)
  finally show ?thesis by (simp add: block_popcount_def)
qed

lemma block_popcount_cong:
  assumes "\<And>k. k < 8 \<Longrightarrow> sparse (blk * 8 + k) = sparse' (blk * 8 + k)"
  shows "block_popcount sparse blk = block_popcount sparse' blk"
proof -
  have "map (\<lambda>k. popcount (sparse (blk * 8 + k))) [0..<8] =
        map (\<lambda>k. popcount (sparse' (blk * 8 + k))) [0..<8]"
    by (rule map_cong) (simp_all add: assms)
  then show ?thesis unfolding block_popcount_def by (rule arg_cong)
qed

lemma matrix_inv_step:
  assumes inv: "matrix_inv src zi kg e0 N e"
    and i: "i = N div (kg div 16)" and j: "j = N mod (kg div 16)"
    and blk: "(i * kg) div TILING_SIZE + j = N"
  shows "matrix_inv src zi kg e0 (Suc N) (encode_block src zi kg i j e)"
proof -
  define e2 where "e2 = encode_block src zi kg i j e"
  define S where "S m = selected zi kg (m div (kg div 16)) (m mod (kg div 16)) 256" for m
  define ix where "ix m = blk_idx kg (m div (kg div 16)) (m mod (kg div 16))" for m
  from inv have nc: "new_count e = count_info e"
    and ci: "count_info e = block_start (tsize_out e) N"
    unfolding matrix_inv_def by blast+
  from inv have old: "block_popcount (sparse_out e) m = length (S m)"
      "tsize_out e m = block_start (tsize_out e) m + length (S m)"
      "tsize_out e m \<le> count_info e" if "m < N" for m
    using that unfolding matrix_inv_def S_def by blast+
  from inv have old_bits: "bit (sparse_out e (m * 8 + k)) n \<longleftrightarrow> n < 32 \<and> zi (ix m (32 * k + n))"
    if "m < N" "k < 8" for m k n
    using that unfolding matrix_inv_def ix_def by blast
  from inv have old_stream: "new_buf e (block_start (tsize_out e) m + r) = src (ix m (S m ! r))"
    if "m < N" "r < length (S m)" for m r
    using that unfolding matrix_inv_def ix_def S_def by blast
  from inv have old_rest: "new_buf e n = new_buf e0 n" if "count_info e \<le> n" for n
    using that unfolding matrix_inv_def by blast
  from inv have old_sparse: "sparse_out e x = sparse_out e0 x" if "8 * N \<le> x" for x
    using that unfolding matrix_inv_def by blast
  from inv have old_tsize: "tsize_out e m = tsize_out e0 m" if "N \<le> m" for m
    using that unfolding matrix_inv_def by blast
  have SN: "selected zi kg i j 256 = S N" and ixN: "blk_idx kg i j = ix N"
    by (simp_all add: S_def ix_def i j)
  from encode_block_props [of zi kg i j src e]
  obtain si where len: "length si = 8"
    and bits: "\<And>k n. k < 8 \<Longrightarrow> bit (si ! k) n \<longleftrightarrow> n < 32 \<and> zi (ix N (32 * k + n))"
    and pc: "sum_list (map popcount si) = length (S N)"
    and nc2: "new_count e2 = new_count e + length (S N)"
    and ci2: "count_info e2 = count_info e + length (S N)"
    and ts2: "tsize_out e2 = (tsize_out e) (N := count_info e + length (S N))"
    and sp2: "\<And>x. sparse_out e2 x =
           (if N * 8 \<le> x \<and> x < N * 8 + 8 then si ! (x - N * 8) else sparse_out e x)"
    and nb2: "\<And>n. new_buf e2 n =
           (if new_count e \<le> n \<and> n < new_count e + length (S N)
            then src (ix N (S N ! (n - new_count e))) else new_buf e n)"
    unfolding blk SN ixN e2_def [symmetric] by blast
  have start_old: "block_start (tsize_out e2) m = block_start (tsize_out e) m" if "m \<le> N" for m
  proof (cases "m = 0")
    case True
    then show ?thesis by (simp add: block_start_def)
  next
    case False
    with that have "m - 1 \<noteq> N" by simp
    with False show ?thesis by (simp add: block_start_def ts2)
  qed
  have sparse_old: "sparse_out e2 (m * 8 + k) = sparse_out e (m * 8 + k)" if "m < N" "k < 8" for m k
  proof -
    from that have "m * 8 + k < N * 8" by simp
    then show ?thesis by (simp add: sp2)
  qed
  have sparse_new: "sparse_out e2 (N * 8 + k) = si ! k" if "k < 8" for k
    using that by (simp add: sp2)
  have tsN: "tsize_out e2 N = count_info e + length (S N)" by (simp add: ts2)
  have ts_old: "tsize_out e2 m = tsize_out e m" if "m \<noteq> N" for m
    using that by (simp add: ts2)
  have startN: "block_start (tsize_out e2) N = count_info e"
    using start_old [of N] ci by simp
  have c1: "new_count e2 = count_info e2" by (simp add: nc2 ci2 nc)
  have c2: "count_info e2 = block_start (tsize_out e2) (Suc N)"
    by (simp add: block_start_def tsN ci2)
  have c3: "block_popcount (sparse_out e2) m = length (S m) \<and>
            tsize_out e2 m = block_start (tsize_out e2) m + length (S m) \<and>
            tsize_out e2 m \<le> count_info e2" if m: "m < Suc N" for m
  proof (cases "m = N")
    case True
    have "block_popcount (sparse_out e2) N = sum_list (map popcount si)"
      using len by (rule block_popcount_list) (simp add: sparse_new)
    then show ?thesis
      using True by (simp add: pc tsN ci2 startN)
  next
    case False
    with m have lt: "m < N" by simp
    have "block_popcount (sparse_out e2) m = block_popcount (sparse_out e) m"
      by (rule block_popcount_cong) (simp add: sparse_old lt)
    with lt old [OF lt] show ?thesis
      by (simp add: ts_old ci2 start_old)
  qed
  have c4: "bit (sparse_out e2 (m * 8 + k)) n \<longleftrightarrow> n < 32 \<and> zi (ix m (32 * k + n))"
    if m: "m < Suc N" and k: "k < 8" for m k n
  proof (cases "m = N")
    case True
    then show ?thesis using bits [OF k] k by (simp add: sparse_new)
  next
    case False
    with m have lt: "m < N" by simp
    then show ?thesis using old_bits [OF lt k] k by (simp add: sparse_old)
  qed
  have c5: "new_buf e2 (block_start (tsize_out e2) m + r) = src (ix m (S m ! r))"
    if m: "m < Suc N" and r: "r < length (S m)" for m r
  proof (cases "m = N")
    case True
    then show ?thesis using r by (simp add: startN nb2 nc)
  next
    case False
    with m have lt: "m < N" by simp
    from old [OF lt] r have "block_start (tsize_out e) m + r < count_info e" by simp
    then show ?thesis using lt old_stream [OF lt r] by (simp add: start_old nb2 nc)
  qed
  have c6: "new_buf e2 n = new_buf e0 n" if "count_info e2 \<le> n" for n
    using that by (simp add: nb2 nc ci2 old_rest)
  have c7: "sparse_out e2 x = sparse_out e0 x" if "8 * Suc N \<le> x" for x
    using that by (simp add: sp2 old_sparse)
  have c8: "tsize_out e2 m = tsize_out e0 m" if "Suc N \<le> m" for m
    using that by (simp add: ts_old old_tsize)
  show ?thesis
    unfolding matrix_inv_def e2_def [symmetric] S_def [symmetric] ix_def [symmetric]
    using c1 c2 c3 c4 c5 c6 c7 c8 by blast
qed

lemma matrix_inv_counts:
  "matrix_inv src zi kg e0 N e \<Longrightarrow>
   new_count e = count_info e \<and> count_info e = block_start (tsize_out e) N"
  unfolding matrix_inv_def by blast

lemma matrix_inv_block:
  "matrix_inv src zi kg e0 N e \<Longrightarrow> m < N \<Longrightarrow>
   block_popcount (sparse_out e) m
     = length (selected zi kg (m div (kg div 16)) (m mod (kg div 16)) 256) \<and>
   tsize_out e m = block_start (tsize_out e) m
     + length (selected zi kg (m div (kg div 16)) (m mod (kg div 16)) 256) \<and>
   tsize_out e m \<le> count_info e"
  unfolding matrix_inv_def by blast

lemma matrix_inv_bits:
  "matrix_inv src zi kg e0 N e \<Longrightarrow> m < N \<Longrightarrow> k < 8 \<Longrightarrow>
   bit (sparse_out e (m * 8 + k)) n \<longleftrightarrow>
     n < 32 \<and> zi (blk_idx kg (m div (kg div 16)) (m mod (kg div 16)) (32 * k + n))"
  unfolding matrix_inv_def by blast

lemma matrix_inv_stream:
  "matrix_inv src zi kg e0 N e \<Longrightarrow> m < N \<Longrightarrow>
   r < length (selected zi kg (m div (kg div 16)) (m mod (kg div 16)) 256) \<Longrightarrow>
   new_buf e (block_start (tsize_out e) m + r) =
     src (blk_idx kg (m div (kg div 16)) (m mod (kg div 16))
            (selected zi kg (m div (kg div 16)) (m mod (kg div 16)) 256 ! r))"
  unfolding matrix_inv_def by blast

lemma matrix_inv_rest:
  "matrix_inv src zi kg e0 N e \<Longrightarrow> count_info e \<le> n \<Longrightarrow> new_buf e n = new_buf e0 n"
  unfolding matrix_inv_def by blast

lemma matrix_inv_init:
  assumes "new_count e0 = 0"
  shows "matrix_inv src zi kg e0 0 (e0\<lparr>count_info := 0\<rparr>)"
  using assms by (simp add: matrix_inv_def block_start_def)

lemma encode_loops_inv:
  assumes kg: "16 dvd kg" and e0: "new_count e0 = 0"
  shows "matrix_inv src zi kg e0 ((mg div 16) * (kg div 16)) (encode_loops src zi mg kg e0)"
proof -
  define kt where "kt = kg div 16"
  have kg_eq: "kg = 16 * kt" using kg by (simp add: kt_def)
  have inner: "matrix_inv src zi kg e0 (Suc i * kt)
                 (fold (\<lambda>j. encode_block src zi kg i j) [0..<kt] e)"
    if e: "matrix_inv src zi kg e0 (i * kt) e" for i e
  proof -
    have "matrix_inv src zi kg e0 (i * kt + kt)
            (fold (\<lambda>j. encode_block src zi kg i j) [0..<kt] e)"
    proof (rule fold_upt_inv [where P = "\<lambda>j. matrix_inv src zi kg e0 (i * kt + j)"])
      show "matrix_inv src zi kg e0 (i * kt + 0) e" using e by simp
    next
      fix j e' assume j: "j < kt" and e': "matrix_inv src zi kg e0 (i * kt + j) e'"
      have "matrix_inv src zi kg e0 (Suc (i * kt + j)) (encode_block src zi kg i j e')"
      proof (rule matrix_inv_step [OF e'])
        show "i = (i * kt + j) div (kg div 16)" using j by (simp add: kt_def [symmetric])
        show "j = (i * kt + j) mod (kg div 16)" using j by (simp add: kt_def [symmetric])
        have "(i * kg) div 16 = i * kt" by (simp add: kg_eq)
        then show "(i * kg) div TILING_SIZE + j = i * kt + j" by (simp add: TILING_SIZE_def)
      qed
      then show "matrix_inv src zi kg e0 (i * kt + Suc j) (encode_block src zi kg i j e')"
        by simp
    qed
    moreover have "Suc i * kt = i * kt + kt" by simp
    ultimately show ?thesis by (simp only:)
  qed
  have "matrix_inv src zi kg e0 ((mg div 16) * kt)
          (fold (\<lambda>i. fold (\<lambda>j. encode_block src zi kg i j) [0..<kt]) [0..<mg div 16]
             (e0\<lparr>count_info := 0\<rparr>))"
  proof (rule fold_upt_inv [where P = "\<lambda>i. matrix_inv src zi kg e0 (i * kt)"])
    show "matrix_inv src zi kg e0 (0 * kt) (e0\<lparr>count_info := 0\<rparr>)"
      using matrix_inv_init [OF e0] by simp
  qed (rule inner)
  then show ?thesis
    by (simp add: encode_loops_def TILING_SIZE_def kt_def)
qed

text \<open>What the invariant says about one block of the finished encoding.\<close>

lemma encode_loops_prefix:
  assumes "16 dvd kg" "new_count e0 = 0" "blk < (mg div 16) * (kg div 16)"
  shows "tsize_out (encode_loops src zi mg kg e0) blk =
           block_start (tsize_out (encode_loops src zi mg kg e0)) blk
           + block_popcount (sparse_out (encode_loops src zi mg kg e0)) blk"
  using matrix_inv_block [OF encode_loops_inv [OF assms(1,2)] assms(3), of src zi] by simp

lemma selected_empty_mask: "selected (\<lambda>_. False) kg i j q = []"
  by (simp add: selected_def)

lemma encode_loops_empty_mask:
  assumes "16 dvd kg" "new_count e0 = 0"
  shows "new_count (encode_loops src (\<lambda>_. False) mg kg e0) = 0"
    and "new_buf (encode_loops src (\<lambda>_. False) mg kg e0) = new_buf e0"
    and "blk < (mg div 16) * (kg div 16) \<Longrightarrow>
         tsize_out (encode_loops src (\<lambda>_. False) mg kg e0) blk = 0"
    and "blk < (mg div 16) * (kg div 16) \<Longrightarrow>
         block_popcount (sparse_out (encode_loops src (\<lambda>_. False) mg kg e0)) blk = 0"
    and "blk < (mg div 16) * (kg div 16) \<Longrightarrow> k < 8 \<Longrightarrow>
         sparse_out (encode_loops src (\<lambda>_. False) mg kg e0) (blk * 8 + k) = 0"
proof -
  define e where "e = encode_loops src (\<lambda>_. False) mg kg e0"
  define N where "N = (mg div 16) * (kg div 16)"
  have inv: "matrix_inv src (\<lambda>_. False) kg e0 N e"
    unfolding e_def N_def using assms by (rule encode_loops_inv)
  have blk: "block_popcount (sparse_out e) m = 0"
      "tsize_out e m = block_start (tsize_out e) m" if "m < N" for m
    using matrix_inv_block [OF inv that] by (simp_all add: selected_empty_mask)
  have ts: "tsize_out e m = 0" if "m < N" for m
    using that
  proof (induction m)
    case 0
    with blk(2) [of 0] show ?case by (simp add: block_start_def)
  next
    case (Suc m)
    then have "tsize_out e m = 0" by simp
    with blk(2) [OF Suc.prems] show ?case by (simp add: block_start_def)
  qed
  have "block_start (tsize_out e) N = 0"
  proof (cases "N = 0")
    case True
    then show ?thesis by (simp add: block_start_def)
  next
    case False
    then have "N - 1 < N" by simp
    from ts [OF this] False show ?thesis by (simp add: block_start_def)
  qed
  with matrix_inv_counts [OF inv] have ci: "count_info e = 0" and nc: "new_count e = 0"
    by simp_all
  show "new_count (encode_loops src (\<lambda>_. False) mg kg e0) = 0"
    using nc by (simp add: e_def)
  have "new_buf e n = new_buf e0 n" for n
    using matrix_inv_rest [OF inv, of n] ci by simp
  then have "new_buf e = new_buf e0" by (rule ext)
  then show "new_buf (encode_loops src (\<lambda>_. False) mg kg e0) = new_buf e0"
    by (simp add: e_def)
  show "tsize_out (encode_loops src (\<lambda>_. False) mg kg e0) blk = 0"
    if "blk < (mg div 16) * (kg div 16)"
    using ts [of blk] that by (simp add: e_def N_def)
  show "block_popcount (sparse_out (encode_loops src (\<lambda>_. False) mg kg e0)) blk = 0"
    if "blk < (mg div 16) * (kg div 16)"
    using blk(1) [of blk] that by (simp add: e_def N_def)
  show "sparse_out (encode_loops src (\<lambda>_. False) mg kg e0) (blk * 8 + k) = 0"
    if b: "blk < (mg div 16) * (kg div 16)" and k: "k < 8"
  proof (rule bit_eqI)
    fix n
    from b have "blk < N" by (simp add: N_def)
    from matrix_inv_bits [OF inv this k, of n]
    show "bit (sparse_out (encode_loops src (\<lambda>_. False) mg kg e0) (blk * 8 + k)) n
            \<longleftrightarrow> bit (0 :: 32 word) n"
      by (simp add: e_def)
  qed
qed

subsection \<open>The claims about init\_host\_matrices\<close>

lemma init_host_matrices_fields:
  "A_sparse_info (init_host_matrices bern rnd h) = sparse_out (A_encoding bern rnd M_GLOBAL K_GLOBAL h)"
  "A_tsize_info (init_host_matrices bern rnd h) = tsize_out (A_encoding bern rnd M_GLOBAL K_GLOBAL h)"
  "a_new (init_host_matrices bern rnd h) = new_buf (A_encoding bern rnd M_GLOBAL K_GLOBAL h)"
  "B_sparse_info (init_host_matrices bern rnd h) = sparse_out (B_encoding bern rnd M_GLOBAL K_GLOBAL h)"
  "B_tsize_info (init_host_matrices bern rnd h) = tsize_out (B_encoding bern rnd M_GLOBAL K_GLOBAL h)"
  "b_new (init_host_matrices bern rnd h) = new_buf (B_encoding bern rnd M_GLOBAL K_GLOBAL h)"
  "mat_a (init_host_matrices bern rnd h) = fst (generate_a bern rnd M_GLOBAL K_GLOBAL (mat_a h))"
  "mat_b (init_host_matrices bern rnd h) = mat_b h"
  by (simp_all add: init_host_matrices_def init_host_matrices_dims_def Let_def split: prod.split)

lemma global_dims: "16 dvd K_GLOBAL" "M_GLOBAL div 16 = 256" "K_GLOBAL div 16 = 256"
  "M_GLOBAL div TILING_SIZE = 256" "K_GLOBAL div TILING_SIZE = 256"
  by (simp_all add: config_defs)

lemma A_encoding_eq:
  "\<exists>a z cnt. generate_a bern rnd mg kg (mat_a h) = (a, z, cnt) \<and>
     A_encoding bern rnd mg kg h =
       encode_loops a z mg kg
         \<lparr>new_buf = a_new h, new_count = 0, count_info = 0,
          sparse_out = A_sparse_info h, tsize_out = A_tsize_info h\<rparr>"
  by (cases "generate_a bern rnd mg kg (mat_a h)") (simp add: A_encoding_def)

lemma B_encoding_eq:
  "B_encoding bern rnd mg kg h =
       encode_loops (fst (generate_a bern rnd mg kg (mat_a h))) (\<lambda>_. False) mg kg
         \<lparr>new_buf = b_new h, new_count = 0, count_info = 0,
          sparse_out = B_sparse_info h, tsize_out = B_tsize_info h\<rparr>"
  by (simp add: B_encoding_def split: prod.split)

lemma A_encoding_prefix:
  assumes "16 dvd kg" "blk < (mg div 16) * (kg div 16)"
  shows "tsize_out (A_encoding bern rnd mg kg h) blk =
           block_start (tsize_out (A_encoding bern rnd mg kg h)) blk
           + block_popcount (sparse_out (A_encoding bern rnd mg kg h)) blk"
proof -
  from A_encoding_eq [of bern rnd mg kg h] obtain a z e0
    where "A_encoding bern rnd mg kg h = encode_loops a z mg kg e0" and "new_count e0 = 0"
    by force
  then show ?thesis using encode_loops_prefix [OF assms(1) _ assms(2), of e0 a z] by simp
qed

lemma B_encoding_prefix:
  assumes "16 dvd kg" "blk < (mg div 16) * (kg div 16)"
  shows "tsize_out (B_encoding bern rnd mg kg h) blk =
           block_start (tsize_out (B_encoding bern rnd mg kg h)) blk
           + block_popcount (sparse_out (B_encoding bern rnd mg kg h)) blk"
proof -
  from B_encoding_eq [of bern rnd mg kg h] obtain a e0
    where "B_encoding bern rnd mg kg h = encode_loops a (\<lambda>_. False) mg kg e0"
      and "new_count e0 = 0"
    by (metis enc.select_convs(2))
  then show ?thesis using encode_loops_prefix [OF assms(1) _ assms(2), of e0 a "\<lambda>_. False"] by simp
qed

text \<open>
  C7. For every 16x16 block of either encoded operand, the popcount of the block's
  bitmask is the difference of the prefix-count table at this block and at the previous
  one (with \<open>count[-1] = 0\<close>), and the table does not decrease from one block to the
  next.
\<close>

theorem prefix_count_invariant:
  assumes "blk < (M_GLOBAL div TILING_SIZE) * (K_GLOBAL div TILING_SIZE)"
  shows "let h' = init_host_matrices bern rnd h in
           block_popcount (A_sparse_info h') blk
             = A_tsize_info h' blk - block_start (A_tsize_info h') blk \<and>
           block_start (A_tsize_info h') blk \<le> A_tsize_info h' blk \<and>
           block_popcount (B_sparse_info h') blk
             = B_tsize_info h' blk - block_start (B_tsize_info h') blk \<and>
           block_start (B_tsize_info h') blk \<le> B_tsize_info h' blk"
proof -
  from assms have blk: "blk < (M_GLOBAL div 16) * (K_GLOBAL div 16)"
    by (simp add: global_dims)
  from A_encoding_prefix [OF global_dims(1) blk, of bern rnd h]
       B_encoding_prefix [OF global_dims(1) blk, of bern rnd h]
  show ?thesis
    unfolding Let_def init_host_matrices_fields by simp
qed

theorem prefix_count_invariant_witness:
  "let h' = init_host_matrices (\<lambda>n. even n) (\<lambda>n. n) host0 in
           block_popcount (A_sparse_info h') 1
             = A_tsize_info h' 1 - block_start (A_tsize_info h') 1 \<and>
           block_start (A_tsize_info h') 1 \<le> A_tsize_info h' 1 \<and>
           block_popcount (B_sparse_info h') 1
             = B_tsize_info h' 1 - block_start (B_tsize_info h') 1 \<and>
           block_start (B_tsize_info h') 1 \<le> B_tsize_info h' 1"
  by (rule prefix_count_invariant) (simp add: config_defs)

text \<open>
  C5, what the code does for B. Whatever B holds, \<^verbatim>\<open>init_host_matrices\<close> neither reads
  nor writes it, appends nothing to \<^verbatim>\<open>b_new\<close>, and leaves B's first bitmask word and
  prefix count at zero: the compacted stream of B is empty, also when B has nonzero
  elements.
\<close>

theorem B_encoding_stays_empty:
  "let h' = init_host_matrices bern rnd h in
     mat_b h' = mat_b h \<and> b_new h' = b_new h \<and>
     new_count (B_encoding bern rnd M_GLOBAL K_GLOBAL h) = 0 \<and>
     B_tsize_info h' 0 = 0 \<and> block_popcount (B_sparse_info h') 0 = 0 \<and>
     B_sparse_info h' 0 = 0"
proof -
  from B_encoding_eq [of bern rnd M_GLOBAL K_GLOBAL h] obtain a e0
    where B: "B_encoding bern rnd M_GLOBAL K_GLOBAL h =
               encode_loops a (\<lambda>_. False) M_GLOBAL K_GLOBAL e0"
      and e0: "new_count e0 = 0" "new_buf e0 = b_new h"
    by (metis enc.select_convs(1,2))
  have blk: "0 < (M_GLOBAL div 16) * (K_GLOBAL div 16)" by (simp add: global_dims)
  note em = encode_loops_empty_mask [OF global_dims(1) e0(1), where src = a and mg = M_GLOBAL]
  have "sparse_out (encode_loops a (\<lambda>_. False) M_GLOBAL K_GLOBAL e0) (0 * 8 + 0) = 0"
    using blk by (rule em(5)) simp
  then show ?thesis
    unfolding Let_def init_host_matrices_fields B
    using em(1) em(2) em(3) [OF blk] em(4) [OF blk] by (simp add: e0)
qed

section \<open>Properties of the global-memory traffic\<close>

subsection \<open>The addresses of the stores to D\<close>

lemma length_stream_slots: "length stream_slots = 16384"
  by (simp add: stream_slots_def config_defs)

lemma set_stream_slots:
  "set stream_slots = {0..<8} \<times> {0..<32} \<times> {0..<16} \<times> {0..<4}"
  by (simp only: stream_slots_def set_product config_defs) simp

lemma map_fst_tile_D_writes: "map fst (tile_D_writes t sh) = tile_D_addrs t"
  by (simp add: tile_D_writes_def tile_D_addrs_def comp_def)

lemma map_fst_block_writes:
  "map fst (block_writes mma A B C alpha beta sh ts) = concat (map tile_D_addrs ts)"
  by (induction ts arbitrary: sh) (simp_all add: Let_def map_fst_tile_D_writes)

lemma concat_nth_upt: "concat (map (\<lambda>b. f (xss ! b)) [0..<length xss]) = concat (map f xss)"
proof -
  have "map (\<lambda>b. f (xss ! b)) [0..<length xss] = map f (map (\<lambda>b. xss ! b) [0..<length xss])"
    by simp
  also have "\<dots> = map f xss" by (simp only: map_nth)
  finally show ?thesis by simp
qed

lemma map_fst_compute_gemm_writes:
  "map_option (map fst) (compute_gemm_writes mma g sh0 A B C alpha beta) = compute_gemm_D_addrs g"
proof (cases "grid_tiles g")
  case None
  then show ?thesis by (simp add: compute_gemm_writes_def compute_gemm_D_addrs_def)
next
  case (Some tss)
  have "map fst (concat (map (\<lambda>b. block_writes mma A B C alpha beta (sh0 b) (tss ! b))
                           [0..<length tss])) =
        concat (map (\<lambda>b. concat (map tile_D_addrs (tss ! b))) [0..<length tss])"
    by (simp add: map_concat comp_def map_fst_block_writes)
  also have "\<dots> = concat (map (\<lambda>ts. concat (map tile_D_addrs ts)) tss)"
    by (rule concat_nth_upt)
  also have "\<dots> = concat (map tile_D_addrs (concat tss))"
    by (induction tss) simp_all
  finally show ?thesis
    using Some by (simp add: compute_gemm_writes_def compute_gemm_D_addrs_def)
qed

subsection \<open>Stores that cover a buffer\<close>

lemma apply_writes_other:
  "x \<notin> fst ` set ws \<Longrightarrow> apply_writes ws d x = d x"
  unfolding apply_writes_def by (induction ws arbitrary: d) auto

lemma apply_writes_covered:
  "x \<in> fst ` set ws \<Longrightarrow> apply_writes ws d1 x = apply_writes ws d2 x"
proof (induction ws arbitrary: d1 d2)
  case Nil
  then show ?case by simp
next
  case (Cons w ws)
  show ?case
  proof (cases "x \<in> fst ` set ws")
    case True
    from Cons.IH [OF True] show ?thesis by (simp add: apply_writes_def)
  next
    case False
    with Cons.prems have x: "x = fst w" by auto
    have "apply_writes (w # ws) d x = snd w" for d
    proof -
      have "apply_writes (w # ws) d x = apply_writes ws (d (fst w := snd w)) x"
        by (simp add: apply_writes_def)
      also have "\<dots> = (d (fst w := snd w)) x" using False by (rule apply_writes_other)
      finally show ?thesis by (simp add: x)
    qed
    then show ?thesis by simp
  qed
qed

subsection \<open>The stores of all tiles partition D\<close>

lemma gmem_idx_tile:
  assumes "r < 32" "c < 32" "w < 8"
  shows "gmem_idx (of_nat (8 * r)) (of_nat (8 * c)) w = (8 * r + w) * 65536 + 128 * c"
proof -
  have "((of_nat (8 * r) + of_nat w) * 16 * of_nat GLOBAL_MEM_STRIDE + of_nat (8 * c) * 16 :: 32 word)
        = of_nat ((8 * r + w) * 65536 + 128 * c)"
    by (simp add: config_defs algebra_simps)
  moreover have "(8 * r + w) * 65536 + 128 * c < 2 ^ 32" using assms by simp
  ultimately show ?thesis
    unfolding gmem_idx_def by (simp only: unat_of_nat32)
qed

lemma gmem_slot_tile:
  assumes "n < 1024" "w < 8" "l < 32" "i < 16" "c < 4"
  shows "gmem_slot (fst (tile_of_pos n)) (snd (tile_of_pos n)) (w, l, i, c) =
           (128 * (n div 32) + 16 * w + i) * 4096 + (128 * (n mod 32) + 4 * l + c)"
proof -
  have "n div 32 < 32" using assms(1) by simp
  moreover have "n mod 32 < 32" by simp
  ultimately have "gmem_idx (of_nat (8 * (n div 32))) (of_nat (8 * (n mod 32))) w =
                   (8 * (n div 32) + w) * 65536 + 128 * (n mod 32)"
    using assms(2) by (rule gmem_idx_tile)
  then show ?thesis
    by (simp add: gmem_slot_def tile_of_pos_def config_defs)
qed

lemma tile_D_addrs_bound:
  assumes "n < 1024" "x \<in> set (tile_D_addrs (tile_of_pos n))"
  shows "x < M_GLOBAL * N_GLOBAL"
proof -
  from assms(2) obtain w l i c where s: "w < 8" "l < 32" "i < 16" "c < 4"
    and x: "x = gmem_slot (fst (tile_of_pos n)) (snd (tile_of_pos n)) (w, l, i, c)"
    unfolding tile_D_addrs_def set_map set_stream_slots by auto
  have "n div 32 < 32" using assms(1) by simp
  then have "128 * (n div 32) + 16 * w + i < 4096" using s by simp
  then have "(128 * (n div 32) + 16 * w + i) * 4096 \<le> 4095 * 4096" by simp
  moreover have "128 * (n mod 32) + 4 * l + c < 4096"
  proof -
    have "n mod 32 < 32" by simp
    then have "128 * (n mod 32) \<le> 128 * 31" by simp
    with s show ?thesis by simp
  qed
  ultimately have "(128 * (n div 32) + 16 * w + i) * 4096 + (128 * (n mod 32) + 4 * l + c)
                   < 4096 * 4096" by simp
  then show ?thesis
    unfolding x gmem_slot_tile [OF assms(1) s] by (simp add: config_defs)
qed

lemma tile_D_addrs_hit:
  assumes "x < M_GLOBAL * N_GLOBAL"
  shows "\<exists>n<1024. x \<in> set (tile_D_addrs (tile_of_pos n))"
proof -
  define row where "row = x div 4096"
  define col where "col = x mod 4096"
  define r where "r = row div 128"
  define c where "c = col div 128"
  define w where "w = (row mod 128) div 16"
  define i where "i = (row mod 128) mod 16"
  define l where "l = (col mod 128) div 4"
  define k where "k = (col mod 128) mod 4"
  define n where "n = 32 * r + c"
  have "x < 4096 * 4096" using assms by (simp add: config_defs)
  then have row: "row < 4096" by (simp add: row_def less_mult_imp_div_less)
  have col: "col < 4096" by (simp add: col_def)
  have r: "r < 32" using row by (simp add: r_def less_mult_imp_div_less)
  have c: "c < 32" using col by (simp add: c_def less_mult_imp_div_less)
  have w: "w < 8" by (simp add: w_def less_mult_imp_div_less)
  have l: "l < 32" by (simp add: l_def less_mult_imp_div_less)
  have i: "i < 16" and k: "k < 4" by (simp_all add: i_def k_def)
  have n: "n < 1024" "n div 32 = r" "n mod 32 = c" using r c by (simp_all add: n_def)
  have "row mod 128 = 16 * w + i" by (simp add: w_def i_def)
  then have row_eq: "row = 128 * r + 16 * w + i"
    using div_mult_mod_eq [of row 128] by (simp add: r_def)
  have "col mod 128 = 4 * l + k" by (simp add: l_def k_def)
  then have col_eq: "col = 128 * c + 4 * l + k"
    using div_mult_mod_eq [of col 128] by (simp add: c_def)
  have "x = row * 4096 + col"
    using div_mult_mod_eq [of x 4096] by (simp add: row_def col_def)
  then have "x = gmem_slot (fst (tile_of_pos n)) (snd (tile_of_pos n)) (w, l, i, k)"
    unfolding gmem_slot_tile [OF n(1) w l i k] n(2,3) row_eq [symmetric] col_eq [symmetric] .
  moreover have "(w, l, i, k) \<in> set stream_slots"
    using w l i k by (simp add: set_stream_slots)
  ultimately have "x \<in> set (tile_D_addrs (tile_of_pos n))"
    unfolding tile_D_addrs_def by (simp only: set_map image_eqI)
  with n(1) show ?thesis by blast
qed

lemma tiles_D_addrs_cover:
  assumes T: "set T = set output_tiles"
  shows "set (concat (map tile_D_addrs T)) = {0..<M_GLOBAL * N_GLOBAL}"
proof (rule set_eqI)
  fix x
  have setT: "set T = tile_of_pos ` {0..<1024}" using T by (simp only: output_tiles_eq)
  have "x \<in> set (concat (map tile_D_addrs T)) \<longleftrightarrow>
        (\<exists>n<1024. x \<in> set (tile_D_addrs (tile_of_pos n)))"
    by (auto simp: setT)
  also have "\<dots> \<longleftrightarrow> x < M_GLOBAL * N_GLOBAL"
    using tile_D_addrs_bound tile_D_addrs_hit by blast
  finally show "x \<in> set (concat (map tile_D_addrs T)) \<longleftrightarrow> x \<in> {0..<M_GLOBAL * N_GLOBAL}"
    by simp
qed

lemma all_tiles_D_addrs:
  assumes d: "distinct T" and T: "set T = set output_tiles"
  shows "distinct (concat (map tile_D_addrs T))"
    and "set (concat (map tile_D_addrs T)) = {0..<M_GLOBAL * N_GLOBAL}"
proof -
  have setT: "set T = tile_of_pos ` {0..<1024}" using T by (simp only: output_tiles_eq)
  show s: "set (concat (map tile_D_addrs T)) = {0..<M_GLOBAL * N_GLOBAL}"
  proof (rule set_eqI)
    fix x
    have "x \<in> set (concat (map tile_D_addrs T)) \<longleftrightarrow>
          (\<exists>n<1024. x \<in> set (tile_D_addrs (tile_of_pos n)))"
      by (auto simp: setT)
    also have "\<dots> \<longleftrightarrow> x < M_GLOBAL * N_GLOBAL"
      using tile_D_addrs_bound tile_D_addrs_hit by blast
    finally show "x \<in> set (concat (map tile_D_addrs T)) \<longleftrightarrow> x \<in> {0..<M_GLOBAL * N_GLOBAL}"
      by simp
  qed
  have "length T = card (set T)" using d by (simp add: distinct_card)
  also have "\<dots> = card {0..<1024::nat}"
    unfolding setT using tile_of_pos_inj by (rule card_image)
  finally have lenT: "length T = 1024" by simp
  have "length (concat (map tile_D_addrs T)) = sum_list (map (\<lambda>t. 16384) T)"
    by (simp add: length_concat comp_def tile_D_addrs_def length_stream_slots)
  also have "\<dots> = 16384 * length T" by (simp add: sum_list_triv)
  finally have "length (concat (map tile_D_addrs T)) = M_GLOBAL * N_GLOBAL"
    by (simp add: lenT config_defs)
  moreover have "card (set (concat (map tile_D_addrs T))) = M_GLOBAL * N_GLOBAL"
    unfolding s by simp
  ultimately have "card (set (concat (map tile_D_addrs T))) = length (concat (map tile_D_addrs T))"
    by (simp only:)
  then show "distinct (concat (map tile_D_addrs T))" by (rule card_distinct)
qed

lemma all_positions_D_addrs:
  assumes d: "distinct ps" and s: "set ps = {0..<1024}"
  shows "distinct (concat (map tile_D_addrs (map tile_of_pos ps)))"
    and "set (concat (map tile_D_addrs (map tile_of_pos ps))) = {0..<M_GLOBAL * N_GLOBAL}"
proof -
  have "inj_on tile_of_pos (set ps)" by (simp only: s tile_of_pos_inj)
  with d have "distinct (map tile_of_pos ps)" by (simp add: distinct_map)
  moreover have "set (map tile_of_pos ps) = set output_tiles"
    by (simp only: set_map s output_tiles_eq)
  ultimately show "distinct (concat (map tile_D_addrs (map tile_of_pos ps)))"
    and "set (concat (map tile_D_addrs (map tile_of_pos ps))) = {0..<M_GLOBAL * N_GLOBAL}"
    by (rule all_tiles_D_addrs)+
qed

lemma not_distinct_concat_map:
  assumes "\<not> distinct T" and "\<And>t. f t \<noteq> []"
  shows "\<not> distinct (concat (map f T))"
proof -
  from assms(1) obtain xs ys zs y where T: "T = xs @ [y] @ ys @ [y] @ zs"
    using not_distinct_decomp by blast
  from assms(2) [of y] obtain a where a: "a \<in> set (f y)"
    by (cases "f y") auto
  show ?thesis
  proof
    assume "distinct (concat (map f T))"
    then have "set (f y) \<inter> set (concat (map f (ys @ [y] @ zs))) = {}"
      unfolding T by simp
    with a show False by auto
  qed
qed

subsection \<open>The frame of the kernel\<close>

text \<open>
  The frame of a launch. In a launch whose number of blocks is not a multiple of
  \<open>2 ^ 29\<close> the kernel terminates, leaves the buffers A, B and C as they were, stores to
  every element of D, and what D holds afterwards does not depend on what it held before.
  Every element of D is stored to exactly once exactly when the launch has at most
  \<open>2 ^ 29 - 1024\<close> blocks.
\<close>

theorem compute_gemm_frame:
  assumes "unat gridDim mod 2 ^ 29 \<noteq> 0"
  shows "\<exists>ws mem'.
           compute_gemm_writes mma gridDim shmem0 (mem_A mem) (mem_B mem) (mem_C mem) alpha beta
             = Some ws \<and>
           set (map fst ws) = {0..<M_GLOBAL * N_GLOBAL} \<and>
           (distinct (map fst ws) \<longleftrightarrow> unat gridDim \<le> 2 ^ 29 - 1024) \<and>
           compute_gemm mma gridDim shmem0 alpha beta mem = Some mem' \<and>
           mem_A mem' = mem_A mem \<and> mem_B mem' = mem_B mem \<and> mem_C mem' = mem_C mem \<and>
           (\<forall>d0. \<exists>mem''.
              compute_gemm mma gridDim shmem0 alpha beta (mem\<lparr>mem_D := d0\<rparr>) = Some mem'' \<and>
              (\<forall>x<M_GLOBAL * N_GLOBAL. mem_D mem'' x = mem_D mem' x))"
proof -
  from grid_tiles_cover [OF assms] obtain tss
    where tiles: "grid_tiles gridDim = Some tss"
      and tcover: "set (concat tss) = set output_tiles"
    by blast
  obtain ws where ws: "compute_gemm_writes mma gridDim shmem0 (mem_A mem) (mem_B mem) (mem_C mem)
                         alpha beta = Some ws"
    using tiles by (simp add: compute_gemm_writes_def)
  have "compute_gemm_D_addrs gridDim = Some (concat (map tile_D_addrs (concat tss)))"
    using tiles by (simp add: compute_gemm_D_addrs_def)
  with map_fst_compute_gemm_writes
         [of mma gridDim shmem0 "mem_A mem" "mem_B mem" "mem_C mem" alpha beta] ws
  have addrs: "map fst ws = concat (map tile_D_addrs (concat tss))"
    by simp
  have cover: "set (map fst ws) = {0..<M_GLOBAL * N_GLOBAL}"
    unfolding addrs using tcover by (rule tiles_D_addrs_cover)
  have once: "distinct (map fst ws) \<longleftrightarrow> unat gridDim \<le> 2 ^ 29 - 1024"
  proof (cases "unat gridDim \<le> 2 ^ 29 - 1024")
    case True
    from assms have "1 \<le> unat gridDim" by (cases "unat gridDim = 0") simp_all
    from grid_tiles_positions [OF this True] tiles obtain pss
      where tss: "tss = map (map tile_of_pos) pss"
        and d: "distinct (concat pss)" and s: "set (concat pss) = {0..<1024}"
      by auto
    have "concat tss = map tile_of_pos (concat pss)"
      by (simp add: tss map_concat)
    then have "distinct (map fst ws)"
      unfolding addrs using all_positions_D_addrs(1) [OF d s] by simp
    with True show ?thesis by simp
  next
    case False
    then have "2 ^ 29 - 1024 < unat gridDim" by simp
    with assms have "\<not> distinct (concat tss)"
      using tiles by (rule grid_tiles_duplicate)
    moreover have "tile_D_addrs t \<noteq> []" for t
      using length_stream_slots by (auto simp: tile_D_addrs_def)
    ultimately have "\<not> distinct (map fst ws)"
      unfolding addrs by (rule not_distinct_concat_map)
    with False show ?thesis by simp
  qed
  define mem' where "mem' = mem\<lparr>mem_D := apply_writes ws (mem_D mem)\<rparr>"
  have run: "compute_gemm mma gridDim shmem0 alpha beta (mem\<lparr>mem_D := d0\<rparr>) =
               Some (mem\<lparr>mem_D := apply_writes ws d0\<rparr>)" for d0
    using ws by (simp add: compute_gemm_def)
  have run': "compute_gemm mma gridDim shmem0 alpha beta mem = Some mem'"
    using ws by (simp add: compute_gemm_def mem'_def)
  have same: "apply_writes ws d0 x = mem_D mem' x" if "x < M_GLOBAL * N_GLOBAL" for d0 x
  proof -
    from that cover have "x \<in> fst ` set ws" by simp
    then have "apply_writes ws d0 x = apply_writes ws (mem_D mem) x"
      by (rule apply_writes_covered)
    then show ?thesis by (simp add: mem'_def)
  qed
  have frame: "mem_A mem' = mem_A mem" "mem_B mem' = mem_B mem" "mem_C mem' = mem_C mem"
    by (simp_all add: mem'_def)
  have "\<exists>mem''. compute_gemm mma gridDim shmem0 alpha beta (mem\<lparr>mem_D := d0\<rparr>) = Some mem'' \<and>
                 (\<forall>x<M_GLOBAL * N_GLOBAL. mem_D mem'' x = mem_D mem' x)" for d0
    using run [of d0] same by simp
  with ws cover once run' frame show ?thesis by blast
qed

theorem compute_gemm_frame_witness:
  "unat (80 :: 32 word) mod 2 ^ 29 \<noteq> 0 \<and>
   (\<exists>ws mem'.
     compute_gemm_writes (\<lambda>A B alpha beta t shmem. shmem) 80 (\<lambda>b n. 0)
        (\<lambda>n. 0) (\<lambda>n. 0) (\<lambda>n. 0) 0 0 = Some ws \<and>
     set (map fst ws) = {0..<M_GLOBAL * N_GLOBAL} \<and> distinct (map fst ws) \<and>
     compute_gemm (\<lambda>A B alpha beta t shmem. shmem) 80 (\<lambda>b n. 0) 0 0
        \<lparr>mem_A = (\<lambda>n. 0), mem_B = (\<lambda>n. 0), mem_C = (\<lambda>n. 0), mem_D = (\<lambda>n. 0)\<rparr> = Some mem' \<and>
     mem_A mem' = (\<lambda>n. 0) \<and> mem_B mem' = (\<lambda>n. 0) \<and> mem_C mem' = (\<lambda>n. 0) \<and>
     (\<forall>d0. \<exists>mem''.
        compute_gemm (\<lambda>A B alpha beta t shmem. shmem) 80 (\<lambda>b n. 0) 0 0
          \<lparr>mem_A = (\<lambda>n. 0), mem_B = (\<lambda>n. 0), mem_C = (\<lambda>n. 0), mem_D = d0\<rparr> = Some mem'' \<and>
        (\<forall>x<M_GLOBAL * N_GLOBAL. mem_D mem'' x = mem_D mem' x)))"
  using compute_gemm_frame [of 80 "\<lambda>A B alpha beta t shmem. shmem" "\<lambda>b n. 0"
      "\<lparr>mem_A = (\<lambda>n. 0), mem_B = (\<lambda>n. 0), mem_C = (\<lambda>n. 0), mem_D = (\<lambda>n. 0)\<rparr>" 0 0]
  by simp

text \<open>
  C9, the code at the failing launch. Over a kernel execution every element of D should
  be written exactly once. In a launch with \<open>2 ^ 31 - 1\<close> blocks the kernel terminates,
  but the addresses of its stores to D are not distinct: blocks 0 and \<open>2 ^ 29\<close> both
  store the tile (0, 0), because the 32-bit product \<open>block_pos * 8\<close> of block
  \<open>2 ^ 29\<close> wraps to 0.
\<close>

theorem compute_gemm_double_write_counterexample:
  "\<exists>as. compute_gemm_D_addrs 0x7FFFFFFF = Some as \<and> \<not> distinct as"
proof -
  from large_grid_tiles obtain f
    where tiles: "grid_tiles 0x7FFFFFFF = Some (map f [0..<unat (0x7FFFFFFF :: 32 word)])"
      and f: "(0, 0) \<in> set (f 0)" "(0, 0) \<in> set (f (2 ^ 29))"
    by blast
  have "(0::nat) < 2 ^ 29" "(2 ^ 29 :: nat) < unat (0x7FFFFFFF :: 32 word)" by simp_all
  then have "\<not> distinct (concat (map f [0..<unat (0x7FFFFFFF :: 32 word)]))"
    using f by (rule not_distinct_concat_upt)
  moreover have "tile_D_addrs t \<noteq> []" for t
    using length_stream_slots by (auto simp: tile_D_addrs_def)
  ultimately have "\<not> distinct (concat (map tile_D_addrs
                      (concat (map f [0..<unat (0x7FFFFFFF :: 32 word)]))))"
    by (rule not_distinct_concat_map)
  then show ?thesis using tiles by (simp only: compute_gemm_D_addrs_def option.map) blast
qed

end
